theory Spec2Isabelle
  imports Complex_Main "HOL-Library.Word"
begin

unbundle bit_operations_syntax

section \<open>Dual-rate fire alarm detector: the firmware as HOL functions\<close>

text \<open>
  The sketch \<^verbatim>\<open>Final_code.ino\<close> is embedded function by function, with the source's names.
  Conventions of the embedding:
  \<^item> C \<^verbatim>\<open>float\<close> and \<^verbatim>\<open>double\<close> are the type \<^typ>\<open>real\<close>: arithmetic is exact, conversions
    between the two are the identity, \<^verbatim>\<open>0.4f\<close> is \<open>2/5\<close>, there is no NaN and no infinity.
    \<^verbatim>\<open>sqrt\<close>, \<^verbatim>\<open>log10\<close>, \<^verbatim>\<open>pow(10.0, x)\<close> and \<^verbatim>\<open>fabs\<close> are \<^term>\<open>sqrt\<close>, \<open>log 10\<close>,
    \<open>10 powr x\<close> and \<open>\<bar>x\<bar>\<close>. Every theorem below is a statement about this exact arithmetic;
    rounding of IEEE doubles is not part of the model.
  \<^item> \<^verbatim>\<open>unsigned int\<close> and \<^verbatim>\<open>uint32_t\<close> are \<^typ>\<open>32 word\<close>; \<^verbatim>\<open>int32_t\<close> samples are
    \<^typ>\<open>32 word\<close> read with \<^term>\<open>sint\<close>. The small \<^verbatim>\<open>int\<close> counters of the median filters and the
    \<^verbatim>\<open>uint16_t\<close> bin indices never leave \<open>0..4096\<close> and are \<^typ>\<open>nat\<close>.
  \<^item> C arrays are lists. The globals of the sketch are the fields of one record, passed
    through every function that reads or writes them.
  \<^item> A counted \<^verbatim>\<open>for\<close> loop is a \<^term>\<open>fold\<close> over its index range, a \<^verbatim>\<open>while\<close> loop a
    recursive function with its termination proof.
\<close>

type_synonym uint32 = "32 word"
type_synonym int32 = "32 word"

subsection \<open>Build-time constants\<close>

definition SAMPLES :: nat where "SAMPLES = 1024"
definition LONG_SAMPLES :: nat where "LONG_SAMPLES = 4096"
definition BLOCK_SIZE :: nat where "BLOCK_SIZE = SAMPLES"
definition SAMPLE_RATE :: real where "SAMPLE_RATE = 22627"

definition MAG_THRESHOLD_SHORT :: real where "MAG_THRESHOLD_SHORT = 1"
definition MAG_THRESHOLD_LONG :: real where "MAG_THRESHOLD_LONG = 1"
definition SHORT_MEDIAN_N :: nat where "SHORT_MEDIAN_N = 5"
definition EMA_ALPHA_SHORT :: real where "EMA_ALPHA_SHORT = 2 / 5"
definition LONG_MEDIAN_N :: nat where "LONG_MEDIAN_N = 3"
definition EMA_ALPHA_LONG :: real where "EMA_ALPHA_LONG = 1 / 4"

subsection \<open>Peak estimation: \<^verbatim>\<open>majorPeakParabolaDbWithMag\<close>\<close>

text \<open>The magnitude \<^verbatim>\<open>sqrt(vReal[i]*vReal[i] + vImag[i]*vImag[i])\<close> of bin \<open>i\<close>.\<close>

definition bin_magnitude :: "real list \<Rightarrow> real list \<Rightarrow> nat \<Rightarrow> real" where
  "bin_magnitude vReal vImag i = sqrt (vReal ! i * vReal ! i + vImag ! i * vImag ! i)"

text \<open>
  One iteration of the scan loop, on the pair \<open>(maxY, IndexOfMaxY)\<close>, and the whole loop
  \<^verbatim>\<open>for (i = 1; i < half - 1; i++)\<close>. In C \<^verbatim>\<open>half - 1\<close> is an \<^verbatim>\<open>int\<close>, \<open>-1\<close> when \<open>half = 0\<close>;
  the range \<open>[1..<half - 1]\<close> is empty then as well.
\<close>

definition peak_scan_step :: "real list \<Rightarrow> real list \<Rightarrow> nat \<Rightarrow> real \<times> nat \<Rightarrow> real \<times> nat" where
  "peak_scan_step vReal vImag i = (\<lambda>(maxY, IndexOfMaxY).
     let mag = bin_magnitude vReal vImag i
     in if mag > maxY then (mag, i) else (maxY, IndexOfMaxY))"

definition peak_scan :: "real list \<Rightarrow> real list \<Rightarrow> nat \<Rightarrow> real \<times> nat" where
  "peak_scan vReal vImag half = fold (peak_scan_step vReal vImag) [1..<half - 1] (0, 0)"

definition log10 :: "real \<Rightarrow> real" where
  "log10 x = log 10 x"

text \<open>The offset of the parabola's vertex from the peak bin (source lines 95 to 99).\<close>

definition parabola_delta :: "real \<Rightarrow> real \<Rightarrow> real \<Rightarrow> real" where
  "parabola_delta db1 db db2 =
     (let denom = 2 * (db1 + db2 - 2 * db)
      in if \<bar>denom\<bar> > 1 / 10 ^ 12 then (db1 - db2) / denom else 0)"

text \<open>
  The function returns the frequency and writes the magnitude through \<^verbatim>\<open>outPeakMag\<close>, which
  is non-null at both call sites: the model returns the pair \<open>(frequency, magnitude)\<close>.
\<close>

definition majorPeakParabolaDbWithMag ::
  "real list \<Rightarrow> real list \<Rightarrow> nat \<Rightarrow> real \<Rightarrow> real \<times> real" where
  "majorPeakParabolaDbWithMag vReal vImag samples samplingFrequency =
     (let half = samples div 2;
          (maxY, IndexOfMaxY) = peak_scan vReal vImag half
      in if IndexOfMaxY < 1 \<or> int IndexOfMaxY \<ge> int half - 1 then
           (real IndexOfMaxY * samplingFrequency / real samples, maxY)
         else
           let m1 = bin_magnitude vReal vImag (IndexOfMaxY - 1);
               m = maxY;
               m2 = bin_magnitude vReal vImag (IndexOfMaxY + 1)
           in if m1 \<le> 0 \<or> m \<le> 0 \<or> m2 \<le> 0 then
                (real IndexOfMaxY * samplingFrequency / real samples, m)
              else
                let db1 = log10 m1;
                    db = log10 m;
                    db2 = log10 m2;
                    delta = parabola_delta db1 db db2;
                    preciseIndex = real IndexOfMaxY + delta;
                    precise_db = db + ((db1 - db2) * delta / 2);
                    precise_m = 10 powr precise_db
                in (preciseIndex * samplingFrequency / real samples, precise_m))"

subsection \<open>Program state\<close>

text \<open>The struct \<^verbatim>\<open>Metrics\<close> shared between the two tasks.\<close>

record Metrics =
  peakHzShort :: real
  peakHzLong :: real
  fireAlarmDetected :: bool
  fireShortDetected :: bool
  fireLongDetected :: bool

text \<open>
  A FreeRTOS queue handle for a queue of length one: \<open>None\<close> is the \<^verbatim>\<open>NULL\<close> handle,
  \<open>Some None\<close> a created queue whose only slot is empty, \<open>Some (Some m)\<close> a created queue
  holding the item \<open>m\<close>.
\<close>

type_synonym QueueHandle_t = "Metrics option option"

text \<open>
  The globals that live across iterations of the audio task, and the task's local
  \<^verbatim>\<open>metrics\<close>, which is declared outside its \<^verbatim>\<open>while (1)\<close>. The scratch arrays \<^verbatim>\<open>real\<close>,
  \<^verbatim>\<open>imag\<close>, \<^verbatim>\<open>long_real\<close> and \<^verbatim>\<open>long_imag\<close> are rewritten in full by \<^verbatim>\<open>integerToFloat\<close>
  before every use and are values local to one iteration here. The time stamp \<^verbatim>\<open>last\<close>
  only paces the loop and is left out, as is the write-only \<^verbatim>\<open>Serial\<close> log.
\<close>

record globals =
  metricsQueue :: QueueHandle_t
  long_buffer :: "int32 list"
  long_idx :: uint32
  fireAlarm :: uint32
  fireAlarmLong :: uint32
  short_peak_buf :: "real list"
  short_buf_count :: nat
  short_buf_idx :: nat
  short_ema :: real
  long_peak_buf :: "real list"
  long_buf_count :: nat
  long_buf_idx :: nat
  long_ema :: real
  metrics :: Metrics

text \<open>
  The state when \<^verbatim>\<open>setup\<close> has created the queue and started the two tasks: every static
  is zero-initialised, \<^verbatim>\<open>metrics\<close> is \<^verbatim>\<open>{0, 0, false, false, false}\<close>, the queue is empty.
\<close>

definition initial_state :: globals where
  "initial_state =
     \<lparr> metricsQueue = Some None,
       long_buffer = replicate LONG_SAMPLES 0,
       long_idx = 0,
       fireAlarm = 0,
       fireAlarmLong = 0,
       short_peak_buf = replicate SHORT_MEDIAN_N 0,
       short_buf_count = 0,
       short_buf_idx = 0,
       short_ema = 0,
       long_peak_buf = replicate LONG_MEDIAN_N 0,
       long_buf_count = 0,
       long_buf_idx = 0,
       long_ema = 0,
       metrics = \<lparr> peakHzShort = 0, peakHzLong = 0, fireAlarmDetected = False,
                   fireShortDetected = False, fireLongDetected = False \<rparr> \<rparr>"

subsection \<open>Median and exponential smoothing\<close>

text \<open>
  The inner \<^verbatim>\<open>while (j >= 0 && tmp[j] > key)\<close> of the insertion sort; \<open>j\<close> is an \<^typ>\<open>int\<close>
  because it ends at \<open>-1\<close> when the key moves to the front.
\<close>

function insertion_shift :: "real list \<Rightarrow> real \<Rightarrow> int \<Rightarrow> real list \<times> int" where
  "insertion_shift tmp key j =
     (if j \<ge> 0 \<and> tmp ! nat j > key
      then insertion_shift (tmp[nat (j + 1) := tmp ! nat j]) key (j - 1)
      else (tmp, j))"
  by pat_completeness auto
termination
  by (relation "measure (\<lambda>(tmp, key, j). nat (j + 1))") auto

declare insertion_shift.simps [simp del]

text \<open>The body of the outer loop \<^verbatim>\<open>for (i = 1; i < n; ++i)\<close>.\<close>

definition insertion_pass :: "nat \<Rightarrow> real list \<Rightarrow> real list" where
  "insertion_pass i tmp =
     (let key = tmp ! i;
          (tmp', j) = insertion_shift tmp key (int i - 1)
      in tmp'[nat (j + 1) := key])"

text \<open>
  \<^verbatim>\<open>median_of_copy\<close>: \<open>n\<close> is clipped to the 21 slots of \<^verbatim>\<open>tmp\<close>, the first \<open>n\<close> entries are
  copied, sorted, and the entry at \<open>n/2\<close> is returned. Both callers pass \<open>1 \<le> n\<close>.
\<close>

definition median_of_copy :: "real list \<Rightarrow> nat \<Rightarrow> real" where
  "median_of_copy buffer n0 =
     (let n = (if n0 > 21 then 21 else n0);
          tmp = take n buffer;
          sorted_tmp = fold insertion_pass [1..<n] tmp
      in sorted_tmp ! (n div 2))"

definition update_short_peak_filter :: "real \<Rightarrow> real \<Rightarrow> globals \<Rightarrow> real \<times> globals" where
  "update_short_peak_filter newVal mag s =
     (if mag < MAG_THRESHOLD_SHORT then
        let s1 = s\<lparr>short_ema :=
                    short_ema s * (1 - EMA_ALPHA_SHORT) + short_ema s * EMA_ALPHA_SHORT\<rparr>
        in (short_ema s1, s1)
      else
        let s1 = s\<lparr>short_peak_buf := (short_peak_buf s)[short_buf_idx s := newVal]\<rparr>;
            s2 = s1\<lparr>short_buf_idx := (short_buf_idx s1 + 1) mod SHORT_MEDIAN_N\<rparr>;
            s3 = (if short_buf_count s2 < SHORT_MEDIAN_N
                  then s2\<lparr>short_buf_count := short_buf_count s2 + 1\<rparr> else s2);
            median = median_of_copy (short_peak_buf s3) (short_buf_count s3);
            s4 = (if short_buf_count s3 = 1 \<and> short_ema s3 = 0
                  then s3\<lparr>short_ema := median\<rparr> else s3);
            s5 = s4\<lparr>short_ema :=
                     EMA_ALPHA_SHORT * median + (1 - EMA_ALPHA_SHORT) * short_ema s4\<rparr>
        in (short_ema s5, s5))"

definition update_long_peak_filter :: "real \<Rightarrow> real \<Rightarrow> globals \<Rightarrow> real \<times> globals" where
  "update_long_peak_filter newVal mag s =
     (if mag < MAG_THRESHOLD_LONG then
        let s1 = s\<lparr>long_ema :=
                    long_ema s * (1 - EMA_ALPHA_LONG) + long_ema s * EMA_ALPHA_LONG\<rparr>
        in (long_ema s1, s1)
      else
        let s1 = s\<lparr>long_peak_buf := (long_peak_buf s)[long_buf_idx s := newVal]\<rparr>;
            s2 = s1\<lparr>long_buf_idx := (long_buf_idx s1 + 1) mod LONG_MEDIAN_N\<rparr>;
            s3 = (if long_buf_count s2 < LONG_MEDIAN_N
                  then s2\<lparr>long_buf_count := long_buf_count s2 + 1\<rparr> else s2);
            median = median_of_copy (long_peak_buf s3) (long_buf_count s3);
            s4 = (if long_buf_count s3 = 1 \<and> long_ema s3 = 0
                  then s3\<lparr>long_ema := median\<rparr> else s3);
            s5 = s4\<lparr>long_ema :=
                     EMA_ALPHA_LONG * median + (1 - EMA_ALPHA_LONG) * long_ema s4\<rparr>
        in (long_ema s5, s5))"

subsection \<open>Sample conversion and the history vote\<close>

text \<open>
  \<^verbatim>\<open>integerToFloat\<close>: \<^verbatim>\<open>(integer[i] >> 16) / 10.0\<close>, the shift being arithmetic on \<^verbatim>\<open>int32_t\<close>;
  the imaginary parts are zero.
\<close>

definition integerToFloat :: "int32 list \<Rightarrow> nat \<Rightarrow> real list \<times> real list" where
  "integerToFloat integer samples =
     (map (\<lambda>i. real_of_int (sint (signed_drop_bit 16 (integer ! i))) / 10) [0..<samples],
      replicate samples 0)"

text \<open>The loop of \<^verbatim>\<open>countSetBits\<close>, on the pair of \<open>n\<close> and \<open>count\<close>.\<close>

function countSetBits_loop :: "uint32 \<Rightarrow> uint32 \<Rightarrow> uint32" where
  "countSetBits_loop n count =
     (if n \<noteq> 0 then countSetBits_loop (drop_bit 1 n) (count + (n AND 1)) else count)"
  by pat_completeness auto
termination
proof (relation "measure (\<lambda>(n, count). unat n)")
  show "wf (measure (\<lambda>(n, count). unat n))"
    by simp
next
  fix n count :: uint32
  assume "n \<noteq> 0"
  then have "0 < unat n"
    by (simp add: unat_gt_0)
  then have "unat n div 2 < unat n"
    by simp
  then show "((drop_bit 1 n, count + (n AND 1)), (n, count)) \<in> measure (\<lambda>(n, count). unat n)"
    by (simp add: drop_bit_eq_div unat_div)
qed

declare countSetBits_loop.simps [simp del]

definition countSetBits :: "uint32 \<Rightarrow> uint32" where
  "countSetBits n = countSetBits_loop n 0"

text \<open>
  \<^verbatim>\<open>detectFrequency\<close> updates the register behind \<^verbatim>\<open>mem\<close> and returns the vote: the model
  returns the vote and the new register. The default \<^verbatim>\<open>0xFFFFFFFF\<close> of \<^verbatim>\<open>history_mask\<close> is
  written out at the call site.
\<close>

definition detectFrequency ::
  "uint32 \<Rightarrow> uint32 \<Rightarrow> real \<Rightarrow> real \<Rightarrow> real \<Rightarrow> uint32 \<Rightarrow> bool \<times> uint32" where
  "detectFrequency mem minMatch peak_freq target_freq tol history_mask =
     (let mem1 = push_bit 1 mem;
          mem2 = mem1 AND history_mask;
          mem3 = (if \<bar>peak_freq - target_freq\<bar> \<le> tol then mem2 OR 1 else mem2)
      in (countSetBits mem3 \<ge> minMatch, mem3))"

subsection \<open>The metrics queue and the \<^verbatim>\<open>/metrics\<close> handler\<close>

text \<open>
  Modelled from the spec: \<^verbatim>\<open>xQueueOverwrite\<close> and \<^verbatim>\<open>xQueuePeek\<close> are FreeRTOS library calls,
  not code of the sketch. Section 4.7 of the specification gives the channel one slot that
  a publication always replaces, without queuing, and that a reader is shown without its
  removal, with no data before the first publication. That is what the FreeRTOS reference
  manual says of the two calls on a queue of length one: \<^verbatim>\<open>xQueueOverwrite\<close> writes the
  slot whether it is empty or full and has no wait parameter; \<^verbatim>\<open>xQueuePeek\<close> with zero ticks
  copies the item out and leaves it in the queue, or reports \<^verbatim>\<open>pdFALSE\<close> (here \<open>None\<close>) at
  once when the queue is empty. Each call is atomic with respect to the other task. On the
  \<^verbatim>\<open>NULL\<close> handle \<^verbatim>\<open>xQueueOverwrite\<close> fails an assertion; \<^verbatim>\<open>setup\<close> creates the queue before it
  starts the tasks, and the model leaves the \<^verbatim>\<open>NULL\<close> handle as it is.
\<close>

definition xQueueOverwrite :: "QueueHandle_t \<Rightarrow> Metrics \<Rightarrow> QueueHandle_t" where
  "xQueueOverwrite q item = (case q of None \<Rightarrow> None | Some slot \<Rightarrow> Some (Some item))"

definition xQueuePeek :: "QueueHandle_t \<Rightarrow> Metrics option \<times> QueueHandle_t" where
  "xQueuePeek q = (case q of Some (Some item) \<Rightarrow> (Some item, q) | _ \<Rightarrow> (None, q))"

text \<open>
  What \<^verbatim>\<open>handleMetrics\<close> hands to \<^verbatim>\<open>server.send\<close>: the status, the content type and the
  JSON document (the members in the order they are set; \<open>[]\<close> is \<^verbatim>\<open>{}\<close>).
\<close>

datatype json_value = JsonFloat real | JsonBool bool

record http_response =
  status :: nat
  content_type :: string
  body :: "(string \<times> json_value) list"

definition handleMetrics :: "globals \<Rightarrow> http_response \<times> globals" where
  "handleMetrics s =
     (if metricsQueue s = None then
        (\<lparr>status = 204, content_type = ''application/json'', body = []\<rparr>, s)
      else
        case xQueuePeek (metricsQueue s) of
          (Some m, q) \<Rightarrow>
            (\<lparr>status = 200, content_type = ''application/json'',
              body = [(''peakHzShort'', JsonFloat (peakHzShort m)),
                      (''peakHzLong'', JsonFloat (peakHzLong m)),
                      (''fireAlarmDetected'', JsonBool (fireAlarmDetected m)),
                      (''fireShortDetected'', JsonBool (fireShortDetected m)),
                      (''fireLongDetected'', JsonBool (fireLongDetected m))]\<rparr>,
             s\<lparr>metricsQueue := q\<rparr>)
        | (None, q) \<Rightarrow>
            (\<lparr>status = 204, content_type = ''application/json'', body = []\<rparr>,
             s\<lparr>metricsQueue := q\<rparr>))"

subsection \<open>The audio task \<^verbatim>\<open>loop2\<close>\<close>

text \<open>
  What one call of \<^verbatim>\<open>i2s_read\<close> leaves behind: the status, the byte count, and the content
  of the static array \<^verbatim>\<open>samples\<close> after the call.
\<close>

record i2s_result =
  err :: int
  num_bytes_read :: nat
  samples :: "int32 list"

definition ESP_OK :: int where "ESP_OK = 0"

text \<open>
  The arduinoFFT library is not part of the sketch. Its \<^verbatim>\<open>windowing(FFT_WIN_TYP_HANN,
  FFT_FORWARD)\<close> followed by \<^verbatim>\<open>compute(FFT_FORWARD)\<close>, which rewrite the real and imaginary
  arrays in place, are one parameter of this type.
\<close>

type_synonym transform = "real list \<times> real list \<Rightarrow> real list \<times> real list"

text \<open>The loop \<^verbatim>\<open>for (i = 0; i < BLOCK_SIZE; i++)\<close> that appends to the long buffer.\<close>

definition accumulate_step :: "int32 list \<Rightarrow> nat \<Rightarrow> globals \<Rightarrow> globals" where
  "accumulate_step block i s =
     (if long_idx s < word_of_nat LONG_SAMPLES
      then s\<lparr>long_buffer := (long_buffer s)[unat (long_idx s) := block ! i],
             long_idx := long_idx s + 1\<rparr>
      else s)"

definition accumulate_long :: "int32 list \<Rightarrow> globals \<Rightarrow> globals" where
  "accumulate_long block s = fold (accumulate_step block) [0..<BLOCK_SIZE] s"

text \<open>The block commented ``Short window processing''.\<close>

definition short_window :: "transform \<Rightarrow> int32 list \<Rightarrow> globals \<Rightarrow> globals" where
  "short_window wfft block s =
     (let (peak_freq_raw, peakMagShort) =
            (case wfft (integerToFloat block SAMPLES) of
               (re, im) \<Rightarrow> majorPeakParabolaDbWithMag re im SAMPLES SAMPLE_RATE);
          (peak_freq_short_smoothed, s1) =
            update_short_peak_filter peak_freq_raw peakMagShort s;
          s2 = s1\<lparr>metrics := (metrics s1)\<lparr>peakHzShort := peak_freq_short_smoothed\<rparr>\<rparr>;
          (fire_short_det, mem) =
            detectFrequency (fireAlarm s2) 15 peak_freq_short_smoothed 3100 11 0xFFFFFFFF;
          s3 = s2\<lparr>fireAlarm := mem\<rparr>
      in s3\<lparr>metrics := (metrics s3)\<lparr>fireShortDetected := fire_short_det\<rparr>\<rparr>)"

text \<open>The body of \<^verbatim>\<open>if (long_idx >= LONG_SAMPLES)\<close>.\<close>

definition long_window :: "transform \<Rightarrow> globals \<Rightarrow> globals" where
  "long_window wfft s =
     (let (long_peak_freq_raw, peakMagLong) =
            (case wfft (integerToFloat (long_buffer s) LONG_SAMPLES) of
               (re, im) \<Rightarrow> majorPeakParabolaDbWithMag re im LONG_SAMPLES SAMPLE_RATE);
          (long_peak_freq_smoothed, s1) =
            update_long_peak_filter long_peak_freq_raw peakMagLong s;
          s2 = s1\<lparr>metrics := (metrics s1)\<lparr>peakHzLong := long_peak_freq_smoothed\<rparr>\<rparr>;
          (fire_long_det, mem) =
            detectFrequency (fireAlarmLong s2) 8 long_peak_freq_smoothed 3100 3 0xFFFF;
          s3 = s2\<lparr>fireAlarmLong := mem\<rparr>;
          s4 = s3\<lparr>metrics := (metrics s3)\<lparr>fireLongDetected := fire_long_det\<rparr>\<rparr>
      in s4\<lparr>long_idx := 0\<rparr>)"

text \<open>
  One iteration of \<^verbatim>\<open>while (1)\<close> from the call of \<^verbatim>\<open>i2s_read\<close> on; the pacing test before it
  touches nothing but \<^verbatim>\<open>last\<close>. Nothing in the body throws, so the \<^verbatim>\<open>catch (...)\<close> has no
  branch here. Besides the new state the model returns the path the iteration took: the
  early \<^verbatim>\<open>continue\<close>, the short window alone, or the short and the long window.
\<close>

datatype cycle_path = ReadFailed | ShortOnly | ShortAndLong

definition loop2_cycle :: "transform \<Rightarrow> i2s_result \<Rightarrow> globals \<Rightarrow> cycle_path \<times> globals" where
  "loop2_cycle wfft rd s =
     (if err rd \<noteq> ESP_OK \<or> num_bytes_read rd = 0 then (ReadFailed, s)
      else
        let s1 = accumulate_long (samples rd) s;
            s2 = short_window wfft (samples rd) s1;
            (path, s3) = (if long_idx s2 \<ge> word_of_nat LONG_SAMPLES
                          then (ShortAndLong, long_window wfft s2)
                          else (ShortOnly, s2));
            s4 = s3\<lparr>metrics := (metrics s3)\<lparr>fireAlarmDetected :=
                       fireShortDetected (metrics s3) \<or> fireLongDetected (metrics s3)\<rparr>\<rparr>
        in (path, s4\<lparr>metricsQueue := xQueueOverwrite (metricsQueue s4) (metrics s4)\<rparr>))"

subsection \<open>Runs of the two tasks\<close>

text \<open>
  The audio task and the web server task share only the queue, and each queue call is
  atomic, so a run of the system is a sequence of events: an iteration of the audio task
  with the outcome of its read, or a request for \<^verbatim>\<open>/metrics\<close>. Each event is observed by
  the path it took or by the reply it sent.
\<close>

datatype event = AudioCycle i2s_result | MetricsRequest

datatype observation = Path cycle_path | Reply http_response

fun system_step :: "transform \<Rightarrow> event \<Rightarrow> globals \<Rightarrow> observation \<times> globals" where
  "system_step wfft (AudioCycle rd) s = (case loop2_cycle wfft rd s of (p, s') \<Rightarrow> (Path p, s'))"
| "system_step wfft MetricsRequest s = (case handleMetrics s of (r, s') \<Rightarrow> (Reply r, s'))"

fun system_run :: "transform \<Rightarrow> event list \<Rightarrow> globals \<Rightarrow> observation list \<times> globals" where
  "system_run wfft [] s = ([], s)"
| "system_run wfft (e # es) s =
     (case system_step wfft e s of
        (ob, s') \<Rightarrow> (case system_run wfft es s' of (obs, s'') \<Rightarrow> (ob # obs, s'')))"

section \<open>Notions used to state the properties\<close>

subsection \<open>The vote\<close>

text \<open>
  The number of set bits of a register, and its \<open>W\<close> low bits as a list of votes, the
  newest first.
\<close>

definition popcount :: "uint32 \<Rightarrow> nat" where
  "popcount w = length (filter (bit w) [0..<32])"

definition history_bits :: "nat \<Rightarrow> uint32 \<Rightarrow> bool list" where
  "history_bits W w = map (bit w) [0..<W]"

text \<open>
  \<^verbatim>\<open>detectFrequency\<close> called once for each frequency of a list, oldest first, on one
  register: the votes it returned and the register it left.
\<close>

fun detect_all ::
  "uint32 \<Rightarrow> uint32 \<Rightarrow> real \<Rightarrow> real \<Rightarrow> uint32 \<Rightarrow> real list \<Rightarrow> bool list \<times> uint32" where
  "detect_all mem minMatch target_freq tol history_mask [] = ([], mem)"
| "detect_all mem minMatch target_freq tol history_mask (f # fs) =
     (case detectFrequency mem minMatch f target_freq tol history_mask of
        (fired, mem') \<Rightarrow>
          (case detect_all mem' minMatch target_freq tol history_mask fs of
             (votes, mem'') \<Rightarrow> (fired # votes, mem'')))"

subsection \<open>The filters\<close>

text \<open>
  A filter called once for each pair \<open>(newVal, mag)\<close> of a list: what each call returned,
  with the state it left.
\<close>

fun feed_short :: "(real \<times> real) list \<Rightarrow> globals \<Rightarrow> (real \<times> globals) list" where
  "feed_short [] s = []"
| "feed_short (x # xs) s =
     (case update_short_peak_filter (fst x) (snd x) s of
        (out, s') \<Rightarrow> (out, s') # feed_short xs s')"

fun feed_long :: "(real \<times> real) list \<Rightarrow> globals \<Rightarrow> (real \<times> globals) list" where
  "feed_long [] s = []"
| "feed_long (x # xs) s =
     (case update_long_peak_filter (fst x) (snd x) s of
        (out, s') \<Rightarrow> (out, s') # feed_long xs s')"

text \<open>
  The filter states met while one value \<open>v\<close> is fed from the initial state: the filled
  entries all hold \<open>v\<close>, the write index follows the fill count until the buffer is full,
  and the smoothed value is \<open>v\<close> as soon as one sample was taken.
\<close>

definition short_conv :: "real \<Rightarrow> globals \<Rightarrow> bool" where
  "short_conv v s \<longleftrightarrow>
     length (short_peak_buf s) = SHORT_MEDIAN_N \<and> short_buf_count s \<le> SHORT_MEDIAN_N \<and>
     short_buf_idx s < SHORT_MEDIAN_N \<and>
     (short_buf_count s < SHORT_MEDIAN_N \<longrightarrow> short_buf_idx s = short_buf_count s) \<and>
     (\<forall>i. i < short_buf_count s \<longrightarrow> short_peak_buf s ! i = v) \<and>
     short_ema s = (if short_buf_count s = 0 then 0 else v)"

definition long_conv :: "real \<Rightarrow> globals \<Rightarrow> bool" where
  "long_conv v s \<longleftrightarrow>
     length (long_peak_buf s) = LONG_MEDIAN_N \<and> long_buf_count s \<le> LONG_MEDIAN_N \<and>
     long_buf_idx s < LONG_MEDIAN_N \<and>
     (long_buf_count s < LONG_MEDIAN_N \<longrightarrow> long_buf_idx s = long_buf_count s) \<and>
     (\<forall>i. i < long_buf_count s \<longrightarrow> long_peak_buf s ! i = v) \<and>
     long_ema s = (if long_buf_count s = 0 then 0 else v)"

subsection \<open>The peak scan\<close>


subsection \<open>The audio task and the channel\<close>

definition read_ok :: "i2s_result \<Rightarrow> bool" where
  "read_ok rd \<longleftrightarrow> err rd = ESP_OK \<and> num_bytes_read rd \<noteq> 0"

text \<open>\<open>j\<close> samples of a block written to a buffer from position \<open>a\<close> on.\<close>

definition store_block :: "int32 list \<Rightarrow> nat \<Rightarrow> nat \<Rightarrow> int32 list \<Rightarrow> int32 list" where
  "store_block block a j buf = fold (\<lambda>i buf. buf[a + i := block ! i]) [0..<j] buf"

text \<open>The two replies of \<^verbatim>\<open>handleMetrics\<close>.\<close>

definition no_data_reply :: http_response where
  "no_data_reply = \<lparr>status = 204, content_type = ''application/json'', body = []\<rparr>"

definition snapshot_reply :: "Metrics \<Rightarrow> http_response" where
  "snapshot_reply m =
     \<lparr>status = 200, content_type = ''application/json'',
      body = [(''peakHzShort'', JsonFloat (peakHzShort m)),
              (''peakHzLong'', JsonFloat (peakHzLong m)),
              (''fireAlarmDetected'', JsonBool (fireAlarmDetected m)),
              (''fireShortDetected'', JsonBool (fireShortDetected m)),
              (''fireLongDetected'', JsonBool (fireLongDetected m))]\<rparr>"

text \<open>
  The snapshot a reader would be given in state \<open>s\<close>: the one in the queue, or the
  all-zero \<^verbatim>\<open>metrics\<close> of the task's start when nothing was published yet.
\<close>

definition previous_snapshot :: "globals \<Rightarrow> Metrics" where
  "previous_snapshot s =
     (case metricsQueue s of Some (Some m) \<Rightarrow> m | _ \<Rightarrow> metrics initial_state)"

text \<open>
  Events that publish nothing: a request, or an iteration whose read failed. \<open>skipped\<close>
  singles out the failed iterations.
\<close>

definition quiet :: "event \<Rightarrow> bool" where
  "quiet e = (case e of MetricsRequest \<Rightarrow> True | AudioCycle rd \<Rightarrow> \<not> read_ok rd)"

definition skipped :: "event \<Rightarrow> bool" where
  "skipped e = (case e of MetricsRequest \<Rightarrow> False | AudioCycle rd \<Rightarrow> \<not> read_ok rd)"

definition quiet_observation :: "globals \<Rightarrow> event \<Rightarrow> observation" where
  "quiet_observation s e =
     (case e of
        MetricsRequest \<Rightarrow> Reply (fst (handleMetrics s))
      | AudioCycle rd \<Rightarrow> Path ReadFailed)"

text \<open>What holds of every state the two tasks can reach from the initial state.\<close>

definition run_inv :: "globals \<Rightarrow> bool" where
  "run_inv s \<longleftrightarrow>
     long_idx s \<in> {0, 1024, 2048, 3072} \<and>
     length (long_buffer s) = LONG_SAMPLES \<and>
     (metricsQueue s = Some None \<and> metrics s = metrics initial_state \<or>
      metricsQueue s = Some (Some (metrics s))) \<and>
     (fireAlarmDetected (metrics s) \<longleftrightarrow>
        fireShortDetected (metrics s) \<or> fireLongDetected (metrics s))"

subsection \<open>Concrete inputs\<close>






text \<open>A full read of a silent block, and a read that timed out.\<close>

definition good_read :: i2s_result where
  "good_read = \<lparr>err = 0, num_bytes_read = 4096, samples = replicate 1024 0\<rparr>"

definition bad_read :: i2s_result where
  "bad_read = \<lparr>err = - 1, num_bytes_read = 0, samples = replicate 1024 0\<rparr>"

text \<open>A state in which the short filter holds two samples and the long filter one.\<close>

definition warm_state :: globals where
  "warm_state =
     initial_state\<lparr>short_peak_buf := [3100, 3090, 0, 0, 0], short_buf_count := 2,
                    short_buf_idx := 2, short_ema := 3096,
                    long_peak_buf := [3101, 0, 0], long_buf_count := 1,
                    long_buf_idx := 1, long_ema := 3101\<rparr>"

text \<open>Thirty-two observations for the short detector, fourteen of them within 11 Hz of 3100 Hz.\<close>

definition fourteen_of_32 :: "real list" where
  "fourteen_of_32 =
     [0, 0, 0, 0, 3100, 0, 3095, 0, 3105, 0, 3100, 0, 3089, 0, 3111, 0, 3100, 0,
      3100, 0, 3100, 0, 3100, 0, 3100, 0, 3100, 0, 3100, 0, 3100, 0]"

section \<open>The peak estimator\<close>

subsection \<open>The scan\<close>









subsection \<open>The estimate, by the outcome of the scan\<close>



subsection \<open>The concrete frames\<close>



















subsection \<open>Claim C1: a maximum at a boundary of the scan\<close>




subsection \<open>Claim C9: a peak between equal neighbours\<close>



section \<open>The history vote\<close>

lemma mask_32: "mask 32 = (0xFFFFFFFF :: uint32)"
  by (simp add: mask_eq_exp_minus_1)

lemma mask_16: "mask 16 = (0xFFFF :: uint32)"
  by (simp add: mask_eq_exp_minus_1)

lemma popcount_rec: "popcount n = (if bit n 0 then 1 else 0) + popcount (drop_bit 1 n)"
proof -
  have a: "[0..<32] = 0 # map Suc [0..<31]"
    by (simp add: upt_conv_Cons map_Suc_upt del: upt_Suc)
  have "[0..<Suc 31] = [0..<31] @ [31]" by (rule upt_Suc_append) simp
  then have b: "[0..<32] = [0..<31] @ [31]" by simp
  have c: "\<not> bit (drop_bit 1 n) 31"
  proof
    assume "bit (drop_bit 1 n) 31"
    then have "bit n 32" by (simp add: bit_drop_bit_eq)
    then show False using bit_imp_le_length[of n 32] by simp
  qed
  have "popcount (drop_bit 1 n) = length (filter (bit (drop_bit 1 n)) [0..<31])"
    unfolding popcount_def b using c by simp
  also have "\<dots> = length (filter (\<lambda>i. bit n (Suc i)) [0..<31])"
    by (simp add: bit_drop_bit_eq comp_def)
  finally have d: "popcount (drop_bit 1 n) = length (filter (\<lambda>i. bit n (Suc i)) [0..<31])" .
  have "popcount n = (if bit n 0 then 1 else 0) + length (filter (bit n) (map Suc [0..<31]))"
    unfolding popcount_def a by simp
  also have "length (filter (bit n) (map Suc [0..<31])) = length (filter (\<lambda>i. bit n (Suc i)) [0..<31])"
    by (simp add: filter_map comp_def)
  finally show ?thesis using d by simp
qed

lemma and_one: "(n::uint32) AND 1 = (if bit n 0 then 1 else 0)"
  by (simp add: and_one_eq bit_0 mod_2_eq_odd)

lemma loop_eq: "countSetBits_loop n c = c + of_nat (popcount n)"
proof (induction n c rule: countSetBits_loop.induct)
  case (1 n count)
  show ?case
  proof (cases "n = 0")
    case True
    then show ?thesis by (subst countSetBits_loop.simps) (simp add: popcount_def)
  next
    case False
    have "countSetBits_loop n count = countSetBits_loop (drop_bit 1 n) (count + (n AND 1))"
      using False by (subst countSetBits_loop.simps) simp
    also have "\<dots> = count + (n AND 1) + of_nat (popcount (drop_bit 1 n))"
      using 1 False by simp
    also have "\<dots> = count + of_nat (popcount n)"
      by (subst (2) popcount_rec) (simp add: and_one)
    finally show ?thesis .
  qed
qed

lemma popcount_le: "popcount n \<le> 32"
  unfolding popcount_def using length_filter_le[of "bit n" "[0..<32]"] by simp

lemma unat_countSetBits: "unat (countSetBits n) = popcount n"
proof -
  have a: "countSetBits n = of_nat (popcount n)"
    by (simp add: countSetBits_def loop_eq)
  have "popcount n < 2 ^ 32"
    by (rule le_less_trans[OF popcount_le]) simp
  then have "unat (of_nat (popcount n) :: uint32) = popcount n"
    by (simp add: unat_of_nat)
  then show ?thesis
    using a by simp
qed


lemma detect_snd: "snd (detectFrequency mem M f F e msk) = (push_bit 1 mem AND msk) OR (if \<bar>f - F\<bar> \<le> e then 1 else 0)"
  by (simp add: detectFrequency_def Let_def)

lemma detect_fst: "fst (detectFrequency mem M f F e msk) = (unat M \<le> popcount (snd (detectFrequency mem M f F e msk)))"
  by (simp add: detectFrequency_def Let_def word_le_nat_alt unat_countSetBits)

lemma bit_shl1: "bit (push_bit 1 (mem::32 word)) i \<longleftrightarrow> 0 < i \<and> i < 32 \<and> bit mem (i - 1)"
  unfolding bit_push_bit_iff by (auto simp: dest: bit_imp_le_length)

lemma detect_bit:
  "bit (snd (detectFrequency mem M f F e (mask W))) i \<longleftrightarrow>
     (if i = 0 then \<bar>f - F\<bar> \<le> e else i < W \<and> i < 32 \<and> bit mem (i - 1))"
  unfolding detect_snd bit_or_iff bit_and_iff bit_shl1 bit_mask_iff
  by (cases "\<bar>f - F\<bar> \<le> e") (auto simp: bit_1_iff)

lemma detect_history:
  assumes "1 \<le> W" "W \<le> 32"
  shows "history_bits W (snd (detectFrequency mem M f F e (mask W))) =
         take W ((\<bar>f - F\<bar> \<le> e) # history_bits W mem)"
proof (rule nth_equalityI)
  show "length (history_bits W (snd (detectFrequency mem M f F e (mask W)))) =
        length (take W ((\<bar>f - F\<bar> \<le> e) # history_bits W mem))"
    by (simp add: history_bits_def)
next
  fix i
  assume "i < length (history_bits W (snd (detectFrequency mem M f F e (mask W))))"
  then have i: "i < W" by (simp add: history_bits_def)
  then show "history_bits W (snd (detectFrequency mem M f F e (mask W))) ! i =
             take W ((\<bar>f - F\<bar> \<le> e) # history_bits W mem) ! i"
    using assms by (cases i) (simp_all add: history_bits_def detect_bit)
qed

lemma popcount_history:
  assumes "W \<le> 32" "\<forall>i. W \<le> i \<longrightarrow> \<not> bit w i"
  shows "popcount w = length (filter id (history_bits W w))"
proof -
  have "[0..<32] = [0..<W] @ [W..<32]"
    using assms(1) by (metis le_add_diff_inverse upt_add_eq_append zero_le)
  moreover have "filter (bit w) [W..<32] = []"
    using assms(2) by (simp add: filter_empty_conv)
  ultimately have "popcount w = length (filter (bit w) [0..<W])"
    by (simp add: popcount_def)
  then show ?thesis
    by (simp add: history_bits_def filter_map comp_def)
qed

lemma detect_high_clear:
  "W \<le> i \<Longrightarrow> 1 \<le> W \<Longrightarrow> \<not> bit (snd (detectFrequency mem M f F e (mask W))) i"
  by (simp add: detect_bit)

lemma take_append_take: "take n (xs @ take n ys) = take n (xs @ ys)"
  by (simp add: min_def)

lemma detect_all_history:
  assumes "1 \<le> W" "W \<le> 32"
  shows "history_bits W (snd (detect_all mem M F e (mask W) fs)) =
         take W (rev (map (\<lambda>f. \<bar>f - F\<bar> \<le> e) fs) @ history_bits W mem)"
proof (induction fs arbitrary: mem)
  case Nil
  show ?case by (simp add: history_bits_def)
next
  case (Cons f fs)
  obtain fired mem' where d: "detectFrequency mem M f F e (mask W) = (fired, mem')"
    by (cases "detectFrequency mem M f F e (mask W)")
  have h: "history_bits W mem' = take W ((\<bar>f - F\<bar> \<le> e) # history_bits W mem)"
    using detect_history[OF assms, of mem M f F e] d by simp
  have "snd (detect_all mem M F e (mask W) (f # fs)) = snd (detect_all mem' M F e (mask W) fs)"
    using d by (simp split: prod.splits)
  then show ?case
    using Cons.IH[of mem'] h by (simp add: take_append_take)
qed

lemma detect_all_last:
  assumes "fs \<noteq> []"
  shows "last (fst (detect_all mem M F e msk fs)) = (unat M \<le> popcount (snd (detect_all mem M F e msk fs)))
     \<and> (\<exists>m f. snd (detect_all mem M F e msk fs) = snd (detectFrequency m M f F e msk))"
  using assms
proof (induction fs arbitrary: mem)
  case Nil
  then show ?case by simp
next
  case (Cons f fs)
  obtain fired mem' where d: "detectFrequency mem M f F e msk = (fired, mem')"
    by (cases "detectFrequency mem M f F e msk")
  obtain votes mem'' where r: "detect_all mem' M F e msk fs = (votes, mem'')"
    by (cases "detect_all mem' M F e msk fs")
  show ?case
  proof (cases "fs = []")
    case True
    have "detect_all mem M F e msk (f # fs) = ([fired], mem')"
      using True d by simp
    moreover have "fired = (unat M \<le> popcount mem')"
      using detect_fst[of mem M f F e msk] d by simp
    moreover have "mem' = snd (detectFrequency mem M f F e msk)"
      using d by simp
    ultimately show ?thesis
      by auto
  next
    case False
    then have "votes \<noteq> []"
      using r by (cases fs) (auto split: prod.splits)
    then show ?thesis
      using Cons.IH[OF False, of mem'] d r by simp
  qed
qed


lemma history_zero: "history_bits W 0 = replicate W False"
  by (intro nth_equalityI) (simp_all add: history_bits_def)

lemma count_take_pad:
  "length (filter id (take n (map P xs @ replicate k False))) = length (filter P (take n xs))"
proof -
  have "filter id (take (n - length xs) (replicate k False)) = []"
    by (simp add: filter_empty_conv in_set_conv_nth)
  then show ?thesis
    by (simp add: take_map filter_map comp_def)
qed

subsection \<open>Claim C2: the sliding vote\<close>

text \<open>
  Claim C2. One call of \<^verbatim>\<open>detectFrequency\<close> shifts the register left by one, masks it (to
  \<open>W\<close> bits for the mask \<open>2\<^sup>W - 1\<close>), sets bit 0 exactly when the frequency is within the
  tolerance of the target, and votes true exactly when at least \<open>minMatch\<close> bits of the new
  register are set; \<^verbatim>\<open>countSetBits\<close> counts the set bits. After any non-empty sequence of
  calls the vote is true exactly when at least \<open>minMatch\<close> of the last \<open>W\<close> votes matched
  (the register's earlier content standing for the votes before the sequence). With the
  short window's 32 bits and 15 matches, from an empty register: the vote is true exactly
  when 15 or more of the last 32 frequencies matched.
\<close>

theorem detectFrequency_vote:
  "detectFrequency mem M f F e msk =
     (unat M \<le> popcount ((push_bit 1 mem AND msk) OR (if \<bar>f - F\<bar> \<le> e then 1 else 0)),
      (push_bit 1 mem AND msk) OR (if \<bar>f - F\<bar> \<le> e then 1 else 0))
   \<and> push_bit 1 mem AND mask W = take_bit W (push_bit 1 mem)
   \<and> (bit (snd (detectFrequency mem M f F e msk)) 0 \<longleftrightarrow> \<bar>f - F\<bar> \<le> e)
   \<and> unat (countSetBits w) = popcount w
   \<and> (1 \<le> W \<and> W \<le> 32 \<and> fs \<noteq> [] \<longrightarrow>
        last (fst (detect_all mem M F e (mask W) fs)) =
          (unat M \<le> length (filter id
             (take W (rev (map (\<lambda>f. \<bar>f - F\<bar> \<le> e) fs) @ history_bits W mem)))))
   \<and> (fs \<noteq> [] \<longrightarrow>
        last (fst (detect_all 0 15 F e 0xFFFFFFFF fs)) =
          (15 \<le> length (filter (\<lambda>f. \<bar>f - F\<bar> \<le> e) (take 32 (rev fs)))))"
proof -
  have a: "detectFrequency mem M f F e msk =
     (unat M \<le> popcount ((push_bit 1 mem AND msk) OR (if \<bar>f - F\<bar> \<le> e then 1 else 0)),
      (push_bit 1 mem AND msk) OR (if \<bar>f - F\<bar> \<le> e then 1 else 0))"
    by (simp add: detectFrequency_def Let_def word_le_nat_alt unat_countSetBits)
  have b: "push_bit 1 mem AND mask W = take_bit W (push_bit 1 mem)"
    by (simp add: take_bit_eq_mask)
  have c: "bit (snd (detectFrequency mem M f F e msk)) 0 \<longleftrightarrow> \<bar>f - F\<bar> \<le> e"
    unfolding detect_snd bit_or_iff bit_and_iff bit_shl1 by (simp add: bit_1_iff)
  have d: "last (fst (detect_all mem M F e (mask W) fs)) =
          (unat M \<le> length (filter id
             (take W (rev (map (\<lambda>f. \<bar>f - F\<bar> \<le> e) fs) @ history_bits W mem))))"
    if w: "1 \<le> W" "W \<le> 32" and fs: "fs \<noteq> []" for W mem M
  proof -
    obtain m f' where l: "last (fst (detect_all mem M F e (mask W) fs)) =
        (unat M \<le> popcount (snd (detect_all mem M F e (mask W) fs)))"
      and r: "snd (detect_all mem M F e (mask W) fs) = snd (detectFrequency m M f' F e (mask W))"
      using detect_all_last[OF fs, of mem M F e "mask W"] by blast
    have "\<forall>i. W \<le> i \<longrightarrow> \<not> bit (snd (detect_all mem M F e (mask W) fs)) i"
      unfolding r using w(1) by (simp add: detect_high_clear)
    then have "popcount (snd (detect_all mem M F e (mask W) fs)) =
        length (filter id (history_bits W (snd (detect_all mem M F e (mask W) fs))))"
      using w(2) by (rule popcount_history[rotated])
    then show ?thesis
      using l detect_all_history[OF w, of mem M F e fs] by simp
  qed
  have g: "last (fst (detect_all 0 15 F e 0xFFFFFFFF fs)) =
          (15 \<le> length (filter (\<lambda>f. \<bar>f - F\<bar> \<le> e) (take 32 (rev fs))))"
    if fs: "fs \<noteq> []"
  proof -
    have "last (fst (detect_all 0 15 F e (mask 32) fs)) =
          (unat (15::uint32) \<le> length (filter id
             (take 32 (rev (map (\<lambda>f. \<bar>f - F\<bar> \<le> e) fs) @ history_bits 32 0))))"
      by (rule d) (use fs in simp_all)
    then show ?thesis
      by (simp add: mask_32 history_zero rev_map count_take_pad take_map filter_map comp_def)
  qed
  show ?thesis
  proof (intro conjI impI)
    show "detectFrequency mem M f F e msk =
     (unat M \<le> popcount ((push_bit 1 mem AND msk) OR (if \<bar>f - F\<bar> \<le> e then 1 else 0)),
      (push_bit 1 mem AND msk) OR (if \<bar>f - F\<bar> \<le> e then 1 else 0))"
      by (rule a)
    show "push_bit 1 mem AND mask W = take_bit W (push_bit 1 mem)"
      by (rule b)
    show "bit (snd (detectFrequency mem M f F e msk)) 0 \<longleftrightarrow> \<bar>f - F\<bar> \<le> e"
      by (rule c)
    show "unat (countSetBits w) = popcount w"
      by (rule unat_countSetBits)
    show "last (fst (detect_all mem M F e (mask W) fs)) =
          (unat M \<le> length (filter id
             (take W (rev (map (\<lambda>f. \<bar>f - F\<bar> \<le> e) fs) @ history_bits W mem))))"
      if "1 \<le> W \<and> W \<le> 32 \<and> fs \<noteq> []"
      using that by (intro d) simp_all
    show "last (fst (detect_all 0 15 F e 0xFFFFFFFF fs)) =
          (15 \<le> length (filter (\<lambda>f. \<bar>f - F\<bar> \<le> e) (take 32 (rev fs))))"
      if "fs \<noteq> []"
      using that by (rule g)
  qed
qed

text \<open>
  Fourteen matching frequencies among 32 observations give no detection; a fifteenth match
  as the next observation gives one.
\<close>

theorem detectFrequency_vote_witness:
  "last (fst (detect_all 0 15 3100 11 0xFFFFFFFF fourteen_of_32)) = False
   \<and> last (fst (detect_all 0 15 3100 11 0xFFFFFFFF (fourteen_of_32 @ [3100]))) = True"
proof -
  have n: "fourteen_of_32 \<noteq> []" "fourteen_of_32 @ [3100] \<noteq> []"
    by (simp_all add: fourteen_of_32_def)
  have c14: "length (filter (\<lambda>f. \<bar>f - 3100\<bar> \<le> 11) (take 32 (rev fourteen_of_32))) = 14"
    by (simp add: fourteen_of_32_def)
  have c15: "length (filter (\<lambda>f. \<bar>f - 3100\<bar> \<le> 11) (take 32 (rev (fourteen_of_32 @ [3100])))) = 15"
    by (simp add: fourteen_of_32_def)
  note v = detectFrequency_vote[where F = 3100 and e = 11, THEN conjunct2, THEN conjunct2,
      THEN conjunct2, THEN conjunct2, THEN conjunct2, THEN mp]
  show ?thesis
    using v[OF n(1)] v[OF n(2)] by (simp only: c14 c15) simp
qed

section \<open>The adaptive peak filters\<close>

lemma fold_fixed: "\<forall>i\<in>set is. f i x = x \<Longrightarrow> fold f is x = x"
  by (induction "is") simp_all

lemma insertion_pass_const:
  assumes "1 \<le> i" "i < n"
  shows "insertion_pass i (replicate n v) = replicate n v"
proof -
  have "insertion_shift (replicate n v) v (int i - 1) = (replicate n v, int i - 1)"
    using assms by (subst insertion_shift.simps) simp
  moreover have "(replicate n v)[i := v] = replicate n v"
    using assms by (simp add: list_update_same_conv)
  ultimately show ?thesis
    using assms by (simp add: insertion_pass_def)
qed

lemma median_const:
  assumes "1 \<le> n" "n \<le> length buffer" "n \<le> 21" "\<forall>i. i < n \<longrightarrow> buffer ! i = v"
  shows "median_of_copy buffer n = v"
proof -
  have t: "take n buffer = replicate n v"
    using assms(2,4) by (intro nth_equalityI) simp_all
  have "fold insertion_pass [1..<n] (replicate n v) = replicate n v"
    by (rule fold_fixed) (simp add: insertion_pass_const)
  then show ?thesis
    using assms(1,3) t by (simp add: median_of_copy_def Let_def)
qed

lemma short_conv_step:
  assumes "short_conv v s" "MAG_THRESHOLD_SHORT \<le> mag"
    and "update_short_peak_filter v mag s = (out, s')"
  shows "short_conv v s' \<and> 1 \<le> short_buf_count s' \<and> out = v \<and> short_ema s' = v \<and>
         median_of_copy (short_peak_buf s') (short_buf_count s') = v"
proof -
  let ?buf = "(short_peak_buf s)[short_buf_idx s := v]"
  let ?cnt = "if short_buf_count s < SHORT_MEDIAN_N then short_buf_count s + 1 else short_buf_count s"
  have len: "length ?buf = SHORT_MEDIAN_N"
    using assms(1) by (simp add: short_conv_def)
  have cnt: "1 \<le> ?cnt" "?cnt \<le> SHORT_MEDIAN_N"
    using assms(1) by (auto simp: short_conv_def SHORT_MEDIAN_N_def)
  have all: "\<forall>i. i < ?cnt \<longrightarrow> ?buf ! i = v"
    using assms(1) by (auto simp: short_conv_def nth_list_update less_Suc_eq)
  have med: "median_of_copy ?buf ?cnt = v"
    by (rule median_const) (use len cnt all in \<open>auto simp: SHORT_MEDIAN_N_def\<close>)
  have ema: "short_ema s = (if short_buf_count s = 0 then 0 else v)"
    using assms(1) by (simp add: short_conv_def)
  have fields: "short_peak_buf s' = ?buf" "short_buf_count s' = ?cnt"
    "short_buf_idx s' = (short_buf_idx s + 1) mod SHORT_MEDIAN_N" "short_ema s' = out"
    using assms(2,3)
    by (auto simp: update_short_peak_filter_def Let_def split: if_splits)
  have first: "(?cnt = 1 \<and> short_ema s = 0) \<or> short_ema s = v"
    using ema assms(1) by (auto simp: short_conv_def)
  have "out = EMA_ALPHA_SHORT * v +
          (1 - EMA_ALPHA_SHORT) * (if ?cnt = 1 \<and> short_ema s = 0 then v else short_ema s)"
    using assms(2,3) med
    by (auto simp: update_short_peak_filter_def Let_def split: if_splits)
  also have "\<dots> = v"
    using first by (auto simp: algebra_simps)
  finally have out: "out = v" "short_ema s' = v" "short_peak_buf s' = ?buf" "short_buf_count s' = ?cnt"
    "short_buf_idx s' = (short_buf_idx s + 1) mod SHORT_MEDIAN_N"
    using fields by simp_all
  have idx: "?cnt < SHORT_MEDIAN_N \<longrightarrow> (short_buf_idx s + 1) mod SHORT_MEDIAN_N = ?cnt"
    using assms(1) by (auto simp: short_conv_def SHORT_MEDIAN_N_def)
  have "short_conv v s'"
    unfolding short_conv_def using out len cnt all idx
    by (auto simp: SHORT_MEDIAN_N_def)
  then show ?thesis
    using out med cnt by simp
qed

lemma long_conv_step:
  assumes "long_conv v s" "MAG_THRESHOLD_LONG \<le> mag"
    and "update_long_peak_filter v mag s = (out, s')"
  shows "long_conv v s' \<and> 1 \<le> long_buf_count s' \<and> out = v \<and> long_ema s' = v \<and>
         median_of_copy (long_peak_buf s') (long_buf_count s') = v"
proof -
  let ?buf = "(long_peak_buf s)[long_buf_idx s := v]"
  let ?cnt = "if long_buf_count s < LONG_MEDIAN_N then long_buf_count s + 1 else long_buf_count s"
  have len: "length ?buf = LONG_MEDIAN_N"
    using assms(1) by (simp add: long_conv_def)
  have cnt: "1 \<le> ?cnt" "?cnt \<le> LONG_MEDIAN_N"
    using assms(1) by (auto simp: long_conv_def LONG_MEDIAN_N_def)
  have all: "\<forall>i. i < ?cnt \<longrightarrow> ?buf ! i = v"
    using assms(1) by (auto simp: long_conv_def nth_list_update less_Suc_eq)
  have med: "median_of_copy ?buf ?cnt = v"
    by (rule median_const) (use len cnt all in \<open>auto simp: LONG_MEDIAN_N_def\<close>)
  have ema: "long_ema s = (if long_buf_count s = 0 then 0 else v)"
    using assms(1) by (simp add: long_conv_def)
  have fields: "long_peak_buf s' = ?buf" "long_buf_count s' = ?cnt"
    "long_buf_idx s' = (long_buf_idx s + 1) mod LONG_MEDIAN_N" "long_ema s' = out"
    using assms(2,3)
    by (auto simp: update_long_peak_filter_def Let_def split: if_splits)
  have first: "(?cnt = 1 \<and> long_ema s = 0) \<or> long_ema s = v"
    using ema assms(1) by (auto simp: long_conv_def)
  have "out = EMA_ALPHA_LONG * v +
          (1 - EMA_ALPHA_LONG) * (if ?cnt = 1 \<and> long_ema s = 0 then v else long_ema s)"
    using assms(2,3) med
    by (auto simp: update_long_peak_filter_def Let_def split: if_splits)
  also have "\<dots> = v"
    using first by (auto simp: algebra_simps)
  finally have out: "out = v" "long_ema s' = v" "long_peak_buf s' = ?buf" "long_buf_count s' = ?cnt"
    "long_buf_idx s' = (long_buf_idx s + 1) mod LONG_MEDIAN_N"
    using fields by simp_all
  have idx: "?cnt < LONG_MEDIAN_N \<longrightarrow> (long_buf_idx s + 1) mod LONG_MEDIAN_N = ?cnt"
    using assms(1) by (auto simp: long_conv_def LONG_MEDIAN_N_def)
  have "long_conv v s'"
    unfolding long_conv_def using out len cnt all idx
    by (auto simp: LONG_MEDIAN_N_def)
  then show ?thesis
    using out med cnt by simp
qed






lemma short_conv_initial: "short_conv v initial_state"
  by (simp add: short_conv_def initial_state_def SHORT_MEDIAN_N_def)

lemma long_conv_initial: "long_conv v initial_state"
  by (simp add: long_conv_def initial_state_def LONG_MEDIAN_N_def)

lemma feed_short_conv:
  assumes "short_conv v s" and "\<forall>x\<in>set xs. fst x = v \<and> MAG_THRESHOLD_SHORT \<le> snd x"
  shows "map fst (feed_short xs s) = replicate (length xs) v \<and>
         (\<forall>r\<in>set (feed_short xs s). short_ema (snd r) = v \<and>
            median_of_copy (short_peak_buf (snd r)) (short_buf_count (snd r)) = v)"
  using assms
proof (induction xs arbitrary: s)
  case Nil
  then show ?case by simp
next
  case (Cons x xs)
  obtain out s' where u: "update_short_peak_filter v (snd x) s = (out, s')"
    by (cases "update_short_peak_filter v (snd x) s")
  have x: "fst x = v" "MAG_THRESHOLD_SHORT \<le> snd x"
    using Cons.prems(2) by simp_all
  note st = short_conv_step[OF Cons.prems(1) x(2) u]
  have "feed_short (x # xs) s = (out, s') # feed_short xs s'"
    using u x(1) by simp
  then show ?case
    using st Cons.IH[of s'] Cons.prems(2) by simp
qed

lemma feed_long_conv:
  assumes "long_conv v s" and "\<forall>x\<in>set xs. fst x = v \<and> MAG_THRESHOLD_LONG \<le> snd x"
  shows "map fst (feed_long xs s) = replicate (length xs) v \<and>
         (\<forall>r\<in>set (feed_long xs s). long_ema (snd r) = v \<and>
            median_of_copy (long_peak_buf (snd r)) (long_buf_count (snd r)) = v)"
  using assms
proof (induction xs arbitrary: s)
  case Nil
  then show ?case by simp
next
  case (Cons x xs)
  obtain out s' where u: "update_long_peak_filter v (snd x) s = (out, s')"
    by (cases "update_long_peak_filter v (snd x) s")
  have x: "fst x = v" "MAG_THRESHOLD_LONG \<le> snd x"
    using Cons.prems(2) by simp_all
  note st = long_conv_step[OF Cons.prems(1) x(2) u]
  have "feed_long (x # xs) s = (out, s') # feed_long xs s'"
    using u x(1) by simp
  then show ?case
    using st Cons.IH[of s'] Cons.prems(2) by simp
qed

subsection \<open>Claim C3: a sample below the gate changes nothing\<close>



subsection \<open>Claim C8: identical samples from the initial state\<close>

text \<open>
  Claim C8. From the initial state (fill count 0, smoothed value 0), when every call
  passes the same frequency \<open>v\<close> with a magnitude at or above the threshold, every call
  returns \<open>v\<close>, and after every call the median of the filled entries and the smoothed
  value are \<open>v\<close>. The first call sets the smoothed value to the median before blending.
  This holds for the short filter and for the long filter.
\<close>

theorem filter_convergence:
  assumes "\<forall>x\<in>set xs. fst x = v \<and> MAG_THRESHOLD_SHORT \<le> snd x"
    and "\<forall>y\<in>set ys. fst y = v \<and> MAG_THRESHOLD_LONG \<le> snd y"
  shows "map fst (feed_short xs initial_state) = replicate (length xs) v
       \<and> (\<forall>r\<in>set (feed_short xs initial_state). short_ema (snd r) = v \<and>
            median_of_copy (short_peak_buf (snd r)) (short_buf_count (snd r)) = v)
       \<and> map fst (feed_long ys initial_state) = replicate (length ys) v
       \<and> (\<forall>r\<in>set (feed_long ys initial_state). long_ema (snd r) = v \<and>
            median_of_copy (long_peak_buf (snd r)) (long_buf_count (snd r)) = v)"
  using feed_short_conv[OF short_conv_initial assms(1)]
    feed_long_conv[OF long_conv_initial assms(2)]
  by simp

text \<open>Six calls of the short filter and three of the long one with 3100 Hz.\<close>

theorem filter_convergence_witness:
  "map fst (feed_short [(3100, 1), (3100, 2), (3100, 7), (3100, 1), (3100, 3), (3100, 4)]
      initial_state) = [3100, 3100, 3100, 3100, 3100, 3100]
   \<and> map fst (feed_long [(3100, 1), (3100, 2), (3100, 7)] initial_state) = [3100, 3100, 3100]"
proof -
  have a: "\<forall>x\<in>set [(3100, 1), (3100, 2), (3100, 7), (3100, 1), (3100, 3), (3100::real, 4::real)].
             fst x = 3100 \<and> MAG_THRESHOLD_SHORT \<le> snd x"
    by (simp add: MAG_THRESHOLD_SHORT_def)
  have b: "\<forall>y\<in>set [(3100, 1), (3100, 2), (3100::real, 7::real)].
             fst y = 3100 \<and> MAG_THRESHOLD_LONG \<le> snd y"
    by (simp add: MAG_THRESHOLD_LONG_def)
  show ?thesis
    using filter_convergence[OF a b] by simp
qed

section \<open>The audio task and the metrics channel\<close>

subsection \<open>The index as a machine word\<close>

lemma idx_inc_le: "(x::uint32) < 4096 \<Longrightarrow> x + 1 \<le> 4096"
  by (simp add: inc_le)

lemma idx_unat_add:
  "unat (x::uint32) + j \<le> 4096 \<Longrightarrow> unat (x + word_of_nat j) = unat x + j"
  by (simp add: unat_word_ariths unat_of_nat)

lemma idx_unat_inc: "(x::uint32) < 4096 \<Longrightarrow> unat (x + 1) = unat x + 1"
  using idx_unat_add[of x 1] by (simp add: word_less_nat_alt)

lemma accumulate_step_le:
  "long_idx s \<le> 4096 \<Longrightarrow> long_idx (accumulate_step block i s) \<le> 4096"
  by (simp add: accumulate_step_def LONG_SAMPLES_def idx_inc_le)

lemma accumulate_fold_le:
  "long_idx s \<le> 4096 \<Longrightarrow> long_idx (fold (accumulate_step block) is s) \<le> 4096"
  by (induction "is" arbitrary: s) (simp_all add: accumulate_step_le)

lemma accumulate_step_full:
  "4096 \<le> long_idx s \<Longrightarrow> accumulate_step block i s = s"
  by (simp add: accumulate_step_def LONG_SAMPLES_def)

lemma accumulate_long_full:
  "4096 \<le> long_idx s \<Longrightarrow> accumulate_long block s = s"
  unfolding accumulate_long_def
  by (rule fold_fixed) (simp add: accumulate_step_full)


subsection \<open>The accumulation loop\<close>

lemma store_block_length: "length (store_block block a j buf) = length buf"
  by (induction j) (simp_all add: store_block_def)

lemma store_block_nth:
  "k < length buf \<Longrightarrow>
   store_block block a j buf ! k = (if a \<le> k \<and> k < a + j then block ! (k - a) else buf ! k)"
proof (induction j)
  case 0
  then show ?case by (auto simp: store_block_def)
next
  case (Suc j)
  have "store_block block a (Suc j) buf = (store_block block a j buf)[a + j := block ! j]"
    by (simp add: store_block_def)
  then show ?case
    using Suc by (cases "k = a + j") (auto simp: store_block_length)
qed

lemma accumulate_prefix:
  "unat (long_idx s) + j \<le> 4096 \<Longrightarrow>
   fold (accumulate_step block) [0..<j] s =
     s\<lparr>long_buffer := store_block block (unat (long_idx s)) j (long_buffer s),
       long_idx := long_idx s + word_of_nat j\<rparr>"
proof (induction j)
  case 0
  then show ?case by (simp add: store_block_def)
next
  case (Suc j)
  let ?t = "s\<lparr>long_buffer := store_block block (unat (long_idx s)) j (long_buffer s),
       long_idx := long_idx s + word_of_nat j\<rparr>"
  have f: "fold (accumulate_step block) [0..<j] s = ?t"
    using Suc by simp
  have u: "unat (long_idx s + word_of_nat j) = unat (long_idx s) + j"
    using Suc.prems by (intro idx_unat_add) simp
  then have lt: "long_idx s + word_of_nat j < 4096"
    using Suc.prems by (simp add: word_less_nat_alt)
  have "fold (accumulate_step block) [0..<Suc j] s = accumulate_step block j ?t"
    using f by simp
  also have "\<dots> = s\<lparr>long_buffer := store_block block (unat (long_idx s)) (Suc j) (long_buffer s),
       long_idx := long_idx s + word_of_nat (Suc j)\<rparr>"
    using lt u by (simp add: accumulate_step_def LONG_SAMPLES_def store_block_def add.assoc)
  finally show ?case .
qed

lemma accumulate_long_room:
  "unat (long_idx s) + 1024 \<le> 4096 \<Longrightarrow>
   accumulate_long block s =
     s\<lparr>long_buffer := store_block block (unat (long_idx s)) 1024 (long_buffer s),
       long_idx := long_idx s + 1024\<rparr>"
  using accumulate_prefix[of s 1024 block]
  by (simp add: accumulate_long_def BLOCK_SIZE_def SAMPLES_def)


subsection \<open>What each stage of an iteration leaves alone\<close>

lemma accumulate_step_frame:
  "metricsQueue (accumulate_step block i s) = metricsQueue s"
  "metrics (accumulate_step block i s) = metrics s"
  "length (long_buffer (accumulate_step block i s)) = length (long_buffer s)"
  by (simp_all add: accumulate_step_def)

lemma accumulate_long_frame:
  "metricsQueue (accumulate_long block s) = metricsQueue s"
  "metrics (accumulate_long block s) = metrics s"
  "length (long_buffer (accumulate_long block s)) = length (long_buffer s)"
proof -
  have "metricsQueue (fold (accumulate_step block) is s) = metricsQueue s
      \<and> metrics (fold (accumulate_step block) is s) = metrics s
      \<and> length (long_buffer (fold (accumulate_step block) is s)) = length (long_buffer s)" for "is"
    by (induction "is" arbitrary: s) (simp_all add: accumulate_step_frame)
  then show "metricsQueue (accumulate_long block s) = metricsQueue s"
    "metrics (accumulate_long block s) = metrics s"
    "length (long_buffer (accumulate_long block s)) = length (long_buffer s)"
    by (simp_all add: accumulate_long_def)
qed

lemma update_short_frame:
  "long_idx (snd (update_short_peak_filter v m s)) = long_idx s"
  "long_buffer (snd (update_short_peak_filter v m s)) = long_buffer s"
  "metricsQueue (snd (update_short_peak_filter v m s)) = metricsQueue s"
  "metrics (snd (update_short_peak_filter v m s)) = metrics s"
  "fireAlarm (snd (update_short_peak_filter v m s)) = fireAlarm s"
  by (simp_all add: update_short_peak_filter_def Let_def)

lemma update_long_frame:
  "long_buffer (snd (update_long_peak_filter v m s)) = long_buffer s"
  "metricsQueue (snd (update_long_peak_filter v m s)) = metricsQueue s"
  "metrics (snd (update_long_peak_filter v m s)) = metrics s"
  "fireAlarmLong (snd (update_long_peak_filter v m s)) = fireAlarmLong s"
  by (simp_all add: update_long_peak_filter_def Let_def)

lemma short_window_frame:
  "long_idx (short_window wfft block s) = long_idx s"
  "long_buffer (short_window wfft block s) = long_buffer s"
  "metricsQueue (short_window wfft block s) = metricsQueue s"
  "peakHzLong (metrics (short_window wfft block s)) = peakHzLong (metrics s)"
  "fireLongDetected (metrics (short_window wfft block s)) = fireLongDetected (metrics s)"
  by (simp_all add: short_window_def Let_def case_prod_beta update_short_frame)

lemma long_window_frame:
  "long_idx (long_window wfft s) = 0"
  "long_buffer (long_window wfft s) = long_buffer s"
  "metricsQueue (long_window wfft s) = metricsQueue s"
  by (simp_all add: long_window_def Let_def case_prod_beta update_long_frame)


subsection \<open>One iteration\<close>

lemma cycle_failed: "\<not> read_ok rd \<Longrightarrow> loop2_cycle wfft rd s = (ReadFailed, s)"
  by (auto simp: loop2_cycle_def read_ok_def)

lemma cycle_ok:
  assumes "read_ok rd"
  shows "fst (loop2_cycle wfft rd s) =
           (if 4096 \<le> long_idx (accumulate_long (samples rd) s) then ShortAndLong else ShortOnly)"
    and "long_idx (snd (loop2_cycle wfft rd s)) =
           (if 4096 \<le> long_idx (accumulate_long (samples rd) s) then 0
            else long_idx (accumulate_long (samples rd) s))"
    and "long_buffer (snd (loop2_cycle wfft rd s)) = long_buffer (accumulate_long (samples rd) s)"
    and "metricsQueue (snd (loop2_cycle wfft rd s)) =
           xQueueOverwrite (metricsQueue s) (metrics (snd (loop2_cycle wfft rd s)))"
    and "fireAlarmDetected (metrics (snd (loop2_cycle wfft rd s))) \<longleftrightarrow>
           fireShortDetected (metrics (snd (loop2_cycle wfft rd s))) \<or>
           fireLongDetected (metrics (snd (loop2_cycle wfft rd s)))"
    and "fst (loop2_cycle wfft rd s) = ShortOnly \<Longrightarrow>
           peakHzLong (metrics (snd (loop2_cycle wfft rd s))) = peakHzLong (metrics s) \<and>
           fireLongDetected (metrics (snd (loop2_cycle wfft rd s))) = fireLongDetected (metrics s)"
  using assms
  by (simp_all add: loop2_cycle_def read_ok_def Let_def case_prod_beta LONG_SAMPLES_def
      short_window_frame long_window_frame accumulate_long_frame split: if_splits)


subsection \<open>The handler and runs without a publication\<close>

lemma handleMetrics_eq:
  "handleMetrics s =
     (case metricsQueue s of Some (Some m) \<Rightarrow> snapshot_reply m | _ \<Rightarrow> no_data_reply, s)"
  by (simp add: handleMetrics_def xQueuePeek_def no_data_reply_def snapshot_reply_def
      split: option.splits)

lemma quiet_step:
  "quiet e \<Longrightarrow> system_step wfft e s = (quiet_observation s e, s)"
  by (cases e) (simp_all add: quiet_def quiet_observation_def cycle_failed handleMetrics_eq)

lemma quiet_run:
  "list_all quiet evs \<Longrightarrow> system_run wfft evs s = (map (quiet_observation s) evs, s)"
  by (induction evs) (simp_all add: quiet_step)

lemma cycle_publish:
  "read_ok rd \<Longrightarrow> metricsQueue s = Some slot \<Longrightarrow>
   metricsQueue (snd (loop2_cycle wfft rd s)) = Some (Some (metrics (snd (loop2_cycle wfft rd s))))"
  using cycle_ok(4)[of rd wfft s] by (simp add: xQueueOverwrite_def)

subsection \<open>The reachable states\<close>

lemma run_inv_initial: "run_inv initial_state"
  by (simp add: run_inv_def initial_state_def LONG_SAMPLES_def)

lemma idx_room:
  "long_idx s \<in> {0, 1024, 2048, 3072} \<Longrightarrow> unat (long_idx s) + 1024 \<le> 4096"
  by auto

lemma cycle_idx:
  assumes "read_ok rd" "long_idx s \<in> {0, 1024, 2048, 3072}"
  shows "fst (loop2_cycle wfft rd s) = (if long_idx s = 3072 then ShortAndLong else ShortOnly)"
    and "long_idx (snd (loop2_cycle wfft rd s)) = (if long_idx s = 3072 then 0 else long_idx s + 1024)"
proof -
  have "long_idx (accumulate_long (samples rd) s) = long_idx s + 1024"
    using accumulate_long_room[OF idx_room[OF assms(2)]] by simp
  then show "fst (loop2_cycle wfft rd s) = (if long_idx s = 3072 then ShortAndLong else ShortOnly)"
    and "long_idx (snd (loop2_cycle wfft rd s)) = (if long_idx s = 3072 then 0 else long_idx s + 1024)"
    using assms cycle_ok(1,2)[OF assms(1), of wfft s] by auto
qed

lemma run_inv_cycle:
  assumes "run_inv s"
  shows "run_inv (snd (loop2_cycle wfft rd s))"
proof (cases "read_ok rd")
  case False
  then show ?thesis using assms by (simp add: cycle_failed)
next
  case True
  have i: "long_idx s \<in> {0, 1024, 2048, 3072}"
    using assms by (simp add: run_inv_def)
  have q: "\<exists>slot. metricsQueue s = Some slot"
    using assms by (auto simp: run_inv_def)
  have "long_idx (snd (loop2_cycle wfft rd s)) \<in> {0, 1024, 2048, 3072}"
    using cycle_idx(2)[OF True i, of wfft] i by auto
  moreover have "length (long_buffer (snd (loop2_cycle wfft rd s))) = LONG_SAMPLES"
    using assms by (simp add: cycle_ok(3)[OF True] accumulate_long_frame run_inv_def)
  moreover have "metricsQueue (snd (loop2_cycle wfft rd s)) =
      Some (Some (metrics (snd (loop2_cycle wfft rd s))))"
    using q cycle_publish[OF True] by blast
  ultimately show ?thesis
    using cycle_ok(5)[OF True, of wfft s] by (simp add: run_inv_def)
qed

lemma run_inv_step: "run_inv s \<Longrightarrow> run_inv (snd (system_step wfft e s))"
  by (cases e) (simp_all add: run_inv_cycle handleMetrics_eq case_prod_beta)

lemma run_inv_run: "run_inv s \<Longrightarrow> run_inv (snd (system_run wfft evs s))"
proof (induction evs arbitrary: s)
  case Nil
  then show ?case by simp
next
  case (Cons e evs)
  have "snd (system_run wfft (e # evs) s) = snd (system_run wfft evs (snd (system_step wfft e s)))"
    by (simp add: case_prod_beta)
  then show ?case
    using Cons.IH[OF run_inv_step[OF Cons.prems]] by simp
qed

lemma reachable_inv: "run_inv (snd (system_run wfft evs initial_state))"
  by (rule run_inv_run[OF run_inv_initial])


subsection \<open>Runs\<close>

lemma system_run_append:
  "system_run wfft (xs @ ys) s =
     (fst (system_run wfft xs s) @ fst (system_run wfft ys (snd (system_run wfft xs s))),
      snd (system_run wfft ys (snd (system_run wfft xs s))))"
  by (induction xs arbitrary: s) (simp_all add: case_prod_beta)

lemma step_idx_le: "long_idx s \<le> 4096 \<Longrightarrow> long_idx (snd (system_step wfft e s)) \<le> 4096"
proof (cases e)
  case (AudioCycle rd)
  assume le: "long_idx s \<le> 4096"
  show ?thesis
  proof (cases "read_ok rd")
    case True
    have "long_idx (accumulate_long (samples rd) s) \<le> 4096"
      unfolding accumulate_long_def using le by (rule accumulate_fold_le)
    then show ?thesis
      using AudioCycle cycle_ok(2)[OF True, of wfft s] by (simp add: case_prod_beta)
  next
    case False
    then show ?thesis
      using AudioCycle le by (simp add: cycle_failed)
  qed
next
  case MetricsRequest
  assume "long_idx s \<le> 4096"
  then show ?thesis
    using MetricsRequest by (simp add: handleMetrics_eq)
qed

lemma run_idx_le: "long_idx s \<le> 4096 \<Longrightarrow> long_idx (snd (system_run wfft evs s)) \<le> 4096"
proof (induction evs arbitrary: s)
  case Nil
  then show ?case by simp
next
  case (Cons e evs)
  have "snd (system_run wfft (e # evs) s) = snd (system_run wfft evs (snd (system_step wfft e s)))"
    by (simp add: case_prod_beta)
  then show ?case
    using Cons.IH[OF step_idx_le[OF Cons.prems]] by simp
qed

lemma four_blocks:
  assumes "long_idx s = 0" "read_ok ra" "read_ok rb" "read_ok rc" "read_ok re"
  shows "fst (system_run wfft [AudioCycle ra, AudioCycle rb, AudioCycle rc, AudioCycle re] s) =
           [Path ShortOnly, Path ShortOnly, Path ShortOnly, Path ShortAndLong]
       \<and> long_idx (snd (system_run wfft
             [AudioCycle ra, AudioCycle rb, AudioCycle rc, AudioCycle re] s)) = 0"
proof -
  let ?s1 = "snd (loop2_cycle wfft ra s)"
  let ?s2 = "snd (loop2_cycle wfft rb ?s1)"
  let ?s3 = "snd (loop2_cycle wfft rc ?s2)"
  let ?s4 = "snd (loop2_cycle wfft re ?s3)"
  have 1: "fst (loop2_cycle wfft ra s) = ShortOnly" "long_idx ?s1 = 1024"
    using cycle_idx[OF assms(2), of s wfft] assms(1) by simp_all
  have 2: "fst (loop2_cycle wfft rb ?s1) = ShortOnly" "long_idx ?s2 = 2048"
    using cycle_idx[OF assms(3), of ?s1 wfft] 1(2) by simp_all
  have 3: "fst (loop2_cycle wfft rc ?s2) = ShortOnly" "long_idx ?s3 = 3072"
    using cycle_idx[OF assms(4), of ?s2 wfft] 2(2) by simp_all
  have 4: "fst (loop2_cycle wfft re ?s3) = ShortAndLong" "long_idx ?s4 = 0"
    using cycle_idx[OF assms(5), of ?s3 wfft] 3(2) by simp_all
  show ?thesis
    using 1 2 3 4 by (simp add: case_prod_beta)
qed

subsection \<open>The long window runs once or not at all\<close>

lemma update_long_returns:
  "fst (update_long_peak_filter v m s) = long_ema (snd (update_long_peak_filter v m s))"
  by (simp add: update_long_peak_filter_def Let_def)

lemma accumulate_long_keeps:
  "fireAlarmLong (accumulate_long block s) = fireAlarmLong s"
  "long_peak_buf (accumulate_long block s) = long_peak_buf s"
  "long_buf_count (accumulate_long block s) = long_buf_count s"
  "long_buf_idx (accumulate_long block s) = long_buf_idx s"
  "long_ema (accumulate_long block s) = long_ema s"
proof -
  have "fireAlarmLong (fold (accumulate_step block) is s) = fireAlarmLong s
      \<and> long_peak_buf (fold (accumulate_step block) is s) = long_peak_buf s
      \<and> long_buf_count (fold (accumulate_step block) is s) = long_buf_count s
      \<and> long_buf_idx (fold (accumulate_step block) is s) = long_buf_idx s
      \<and> long_ema (fold (accumulate_step block) is s) = long_ema s" for "is"
    by (induction "is" arbitrary: s) (simp_all add: accumulate_step_def)
  then show "fireAlarmLong (accumulate_long block s) = fireAlarmLong s"
    "long_peak_buf (accumulate_long block s) = long_peak_buf s"
    "long_buf_count (accumulate_long block s) = long_buf_count s"
    "long_buf_idx (accumulate_long block s) = long_buf_idx s"
    "long_ema (accumulate_long block s) = long_ema s"
    by (simp_all add: accumulate_long_def)
qed

lemma update_short_keeps:
  "fireAlarmLong (snd (update_short_peak_filter v m s)) = fireAlarmLong s"
  "long_peak_buf (snd (update_short_peak_filter v m s)) = long_peak_buf s"
  "long_buf_count (snd (update_short_peak_filter v m s)) = long_buf_count s"
  "long_buf_idx (snd (update_short_peak_filter v m s)) = long_buf_idx s"
  "long_ema (snd (update_short_peak_filter v m s)) = long_ema s"
  by (simp_all add: update_short_peak_filter_def Let_def)

lemma short_window_keeps:
  "fireAlarmLong (short_window wfft block s) = fireAlarmLong s"
  "long_peak_buf (short_window wfft block s) = long_peak_buf s"
  "long_buf_count (short_window wfft block s) = long_buf_count s"
  "long_buf_idx (short_window wfft block s) = long_buf_idx s"
  "long_ema (short_window wfft block s) = long_ema s"
  by (simp_all add: short_window_def Let_def case_prod_beta update_short_keeps)

lemma long_window_vote:
  "fireAlarmLong (long_window wfft s) =
     snd (detectFrequency (fireAlarmLong s) 8 (long_ema (long_window wfft s)) 3100 3 0xFFFF)"
  by (simp add: long_window_def Let_def case_prod_beta update_long_frame update_long_returns)

lemma cycle_long_once:
  assumes "read_ok rd"
  shows "fst (loop2_cycle wfft rd s) = ShortOnly \<Longrightarrow>
           fireAlarmLong (snd (loop2_cycle wfft rd s)) = fireAlarmLong s \<and>
           long_peak_buf (snd (loop2_cycle wfft rd s)) = long_peak_buf s \<and>
           long_buf_count (snd (loop2_cycle wfft rd s)) = long_buf_count s \<and>
           long_buf_idx (snd (loop2_cycle wfft rd s)) = long_buf_idx s \<and>
           long_ema (snd (loop2_cycle wfft rd s)) = long_ema s"
    and "fst (loop2_cycle wfft rd s) = ShortAndLong \<Longrightarrow>
           fireAlarmLong (snd (loop2_cycle wfft rd s)) =
             snd (detectFrequency (fireAlarmLong s) 8 (long_ema (snd (loop2_cycle wfft rd s)))
                    3100 3 0xFFFF)"
  using assms
  by (simp_all add: loop2_cycle_def read_ok_def Let_def case_prod_beta
      short_window_keeps accumulate_long_keeps long_window_vote split: if_splits)

subsection \<open>Claim C4: the write index of the long buffer\<close>

text \<open>
  Claim C4. The bound \<open>long_idx \<le> 4096\<close> is kept by every iteration of the append loop, by the
  whole loop, by an iteration of the audio task and by every run of the two tasks. A full
  buffer takes no sample of a block. In an iteration whose read succeeded the long window
  runs exactly when the append loop has filled the buffer: it then shifts one vote into
  the long history register and leaves the index at 0. Otherwise only the short window
  runs, the index stays where the loop left it, and the long filter and the long history
  register are untouched. From
  index 0, four blocks (4096 / 1024) give three iterations with the short window alone and
  a fourth with the long window, after which the index is 0 again.
\<close>

theorem window_accumulator:
  assumes "long_idx s \<le> 4096"
  shows "long_idx (accumulate_step block i s) \<le> 4096
       \<and> long_idx (accumulate_long block s) \<le> 4096
       \<and> long_idx (snd (loop2_cycle wfft rd s)) \<le> 4096
       \<and> long_idx (snd (system_run wfft evs s)) \<le> 4096
       \<and> (long_idx s = 4096 \<longrightarrow> accumulate_long block s = s)
       \<and> (read_ok rd \<longrightarrow>
            (fst (loop2_cycle wfft rd s) = ShortAndLong \<longleftrightarrow>
               long_idx (accumulate_long (samples rd) s) = 4096)
          \<and> (fst (loop2_cycle wfft rd s) = ShortAndLong \<longrightarrow>
               long_idx (snd (loop2_cycle wfft rd s)) = 0)
          \<and> (fst (loop2_cycle wfft rd s) = ShortAndLong \<longrightarrow>
               fireAlarmLong (snd (loop2_cycle wfft rd s)) =
                 snd (detectFrequency (fireAlarmLong s) 8
                        (long_ema (snd (loop2_cycle wfft rd s))) 3100 3 0xFFFF))
          \<and> (fst (loop2_cycle wfft rd s) \<noteq> ShortAndLong \<longrightarrow>
               fst (loop2_cycle wfft rd s) = ShortOnly
             \<and> long_idx (snd (loop2_cycle wfft rd s)) =
                 long_idx (accumulate_long (samples rd) s)
             \<and> fireAlarmLong (snd (loop2_cycle wfft rd s)) = fireAlarmLong s
             \<and> long_peak_buf (snd (loop2_cycle wfft rd s)) = long_peak_buf s
             \<and> long_buf_count (snd (loop2_cycle wfft rd s)) = long_buf_count s
             \<and> long_ema (snd (loop2_cycle wfft rd s)) = long_ema s))
       \<and> (long_idx s = 0 \<and> read_ok ra \<and> read_ok rb \<and> read_ok rc \<and> read_ok re \<longrightarrow>
            fst (system_run wfft [AudioCycle ra, AudioCycle rb, AudioCycle rc, AudioCycle re] s) =
              [Path ShortOnly, Path ShortOnly, Path ShortOnly, Path ShortAndLong]
          \<and> long_idx (snd (system_run wfft
                [AudioCycle ra, AudioCycle rb, AudioCycle rc, AudioCycle re] s)) = 0)"
proof -
  have acc: "long_idx (accumulate_long b s) \<le> 4096" for b
    unfolding accumulate_long_def using assms by (rule accumulate_fold_le)
  have cyc: "long_idx (snd (loop2_cycle wfft rd s)) \<le> 4096"
    using step_idx_le[OF assms, of wfft "AudioCycle rd"] by (simp add: case_prod_beta)
  have full: "long_idx s = 4096 \<longrightarrow> accumulate_long block s = s"
    by (simp add: accumulate_long_full)
  have ok: "(fst (loop2_cycle wfft rd s) = ShortAndLong \<longleftrightarrow>
               long_idx (accumulate_long (samples rd) s) = 4096)
          \<and> (fst (loop2_cycle wfft rd s) = ShortAndLong \<longrightarrow>
               long_idx (snd (loop2_cycle wfft rd s)) = 0)
          \<and> (fst (loop2_cycle wfft rd s) = ShortAndLong \<longrightarrow>
               fireAlarmLong (snd (loop2_cycle wfft rd s)) =
                 snd (detectFrequency (fireAlarmLong s) 8
                        (long_ema (snd (loop2_cycle wfft rd s))) 3100 3 0xFFFF))
          \<and> (fst (loop2_cycle wfft rd s) \<noteq> ShortAndLong \<longrightarrow>
               fst (loop2_cycle wfft rd s) = ShortOnly
             \<and> long_idx (snd (loop2_cycle wfft rd s)) =
                 long_idx (accumulate_long (samples rd) s)
             \<and> fireAlarmLong (snd (loop2_cycle wfft rd s)) = fireAlarmLong s
             \<and> long_peak_buf (snd (loop2_cycle wfft rd s)) = long_peak_buf s
             \<and> long_buf_count (snd (loop2_cycle wfft rd s)) = long_buf_count s
             \<and> long_ema (snd (loop2_cycle wfft rd s)) = long_ema s)"
    if "read_ok rd"
    using cycle_ok(1,2)[OF that, of wfft s] acc[of "samples rd"]
      cycle_long_once[OF that, of wfft s]
    by auto
  show ?thesis
    using accumulate_step_le[OF assms] acc cyc run_idx_le[OF assms] full ok four_blocks
    by blast
qed

text \<open>Four silent blocks from the initial state.\<close>

theorem window_accumulator_witness:
  "fst (system_run id [AudioCycle good_read, AudioCycle good_read, AudioCycle good_read,
          AudioCycle good_read] initial_state) =
     [Path ShortOnly, Path ShortOnly, Path ShortOnly, Path ShortAndLong]
   \<and> long_idx (snd (system_run id [AudioCycle good_read, AudioCycle good_read,
          AudioCycle good_read, AudioCycle good_read] initial_state)) = 0
   \<and> long_idx (snd (loop2_cycle id good_read initial_state)) \<le> 4096"
proof -
  have a: "long_idx initial_state \<le> 4096" "long_idx initial_state = 0"
    by (simp_all add: initial_state_def)
  have g: "read_ok good_read"
    by (simp add: read_ok_def good_read_def ESP_OK_def)
  show ?thesis
    using window_accumulator[OF a(1), where wfft = id and rd = good_read and ra = good_read
        and rb = good_read and rc = good_read and re = good_read] a(2) g
    by blast
qed


subsection \<open>Claim C5: a failed read\<close>

lemma skipped_step: "skipped e \<Longrightarrow> system_step wfft e s = (Path ReadFailed, s)"
  by (cases e) (simp_all add: skipped_def cycle_failed)

lemma skip_failed_run:
  "snd (system_run wfft evs s) = snd (system_run wfft (filter (\<lambda>e. \<not> skipped e) evs) s)"
  by (induction evs arbitrary: s) (simp_all add: skipped_step case_prod_beta)

text \<open>
  Claim C5. When \<^verbatim>\<open>i2s_read\<close> reports an error or zero bytes, the iteration ends at once
  and the state is the one it started with: the buffers, fill counts and smoothed values
  of both filters, both history registers, the long buffer and its index, \<^verbatim>\<open>metrics\<close> and
  the queue. Hence the failed iterations of a run can be deleted from it without changing
  the state it ends in.
\<close>

theorem read_failure_skips_cycle:
  "(err rd \<noteq> ESP_OK \<or> num_bytes_read rd = 0 \<longrightarrow> loop2_cycle wfft rd s = (ReadFailed, s))
   \<and> snd (system_run wfft evs s) = snd (system_run wfft (filter (\<lambda>e. \<not> skipped e) evs) s)"
  using cycle_failed[of rd wfft s] skip_failed_run[of wfft evs s]
  by (auto simp: read_ok_def)

text \<open>A read that timed out, in a state where both filters hold samples.\<close>

theorem read_failure_skips_cycle_witness:
  "loop2_cycle id bad_read warm_state = (ReadFailed, warm_state)
   \<and> snd (system_run id [AudioCycle bad_read, MetricsRequest, AudioCycle bad_read] warm_state) =
       snd (system_run id [MetricsRequest] warm_state)"
proof -
  let ?evs = "[AudioCycle bad_read, MetricsRequest, AudioCycle bad_read]"
  have h: "err bad_read \<noteq> ESP_OK \<or> num_bytes_read bad_read = 0"
    by (simp add: bad_read_def)
  have k: "filter (\<lambda>e. \<not> skipped e) ?evs = [MetricsRequest]"
    by (simp add: bad_read_def skipped_def read_ok_def)
  from read_failure_skips_cycle[where rd = bad_read and wfft = id and s = warm_state
      and evs = ?evs] h
  have "loop2_cycle id bad_read warm_state = (ReadFailed, warm_state)
   \<and> snd (system_run id ?evs warm_state) =
       snd (system_run id (filter (\<lambda>e. \<not> skipped e) ?evs) warm_state)"
    by blast
  then show ?thesis
    unfolding k .
qed

subsection \<open>Claim C6: the published snapshot\<close>

lemma step_carry:
  assumes "fst (system_step wfft e s) \<noteq> Path ShortAndLong"
  shows "peakHzLong (metrics (snd (system_step wfft e s))) = peakHzLong (metrics s) \<and>
         fireLongDetected (metrics (snd (system_step wfft e s))) = fireLongDetected (metrics s)"
proof (cases e)
  case (AudioCycle rd)
  show ?thesis
  proof (cases "read_ok rd")
    case True
    have "fst (loop2_cycle wfft rd s) = ShortOnly"
      using assms AudioCycle cycle_ok(1)[OF True, of wfft s]
      by (simp add: case_prod_beta split: if_splits)
    then show ?thesis
      using AudioCycle cycle_ok(6)[OF True, of wfft s] by (simp add: case_prod_beta)
  next
    case False
    then show ?thesis
      using AudioCycle by (simp add: cycle_failed)
  qed
next
  case MetricsRequest
  then show ?thesis
    by (simp add: handleMetrics_eq)
qed

lemma run_carry:
  "Path ShortAndLong \<notin> set (fst (system_run wfft evs s)) \<Longrightarrow>
   peakHzLong (metrics (snd (system_run wfft evs s))) = peakHzLong (metrics s) \<and>
   fireLongDetected (metrics (snd (system_run wfft evs s))) = fireLongDetected (metrics s)"
proof (induction evs arbitrary: s)
  case Nil
  then show ?case by simp
next
  case (Cons e evs)
  let ?s1 = "snd (system_step wfft e s)"
  have r: "system_run wfft (e # evs) s =
      (fst (system_step wfft e s) # fst (system_run wfft evs ?s1), snd (system_run wfft evs ?s1))"
    by (simp add: case_prod_beta)
  have "fst (system_step wfft e s) \<noteq> Path ShortAndLong"
    and "Path ShortAndLong \<notin> set (fst (system_run wfft evs ?s1))"
    using Cons.prems r by auto
  then show ?case
    using step_carry[of wfft e s] Cons.IH[of ?s1] r by simp
qed

lemma previous_snapshot_inv: "run_inv s \<Longrightarrow> previous_snapshot s = metrics s"
  by (auto simp: run_inv_def previous_snapshot_def)

text \<open>
  Claim C6. Let \<open>s\<close> be a state the tasks reach from the initial state and let an iteration
  with a successful read lead from \<open>s\<close> to \<open>s'\<close>. The iteration publishes \<^verbatim>\<open>metrics\<close>, whose
  overall flag is the disjunction of the short and the long flag, as it is in the snapshot
  published before. When the long window did not run (which is when the index was not
  3072), the long flag and the long peak frequency of the new snapshot are those of the
  snapshot published before, or \<open>False\<close> and 0 when nothing was published before; they are
  \<open>False\<close> and 0 as long as no long window has run.
\<close>

theorem fusion_and_carry_forward:
  assumes "system_run wfft evs initial_state = (obs, s)"
    and "read_ok rd"
    and "loop2_cycle wfft rd s = (p, s')"
  shows "metricsQueue s' = Some (Some (metrics s'))
       \<and> (fireAlarmDetected (metrics s') \<longleftrightarrow>
            fireShortDetected (metrics s') \<or> fireLongDetected (metrics s'))
       \<and> (fireAlarmDetected (previous_snapshot s) \<longleftrightarrow>
            fireShortDetected (previous_snapshot s) \<or> fireLongDetected (previous_snapshot s))
       \<and> (p = ShortOnly \<longleftrightarrow> long_idx s \<noteq> 3072)
       \<and> (p = ShortOnly \<longrightarrow>
            fireLongDetected (metrics s') = fireLongDetected (previous_snapshot s) \<and>
            peakHzLong (metrics s') = peakHzLong (previous_snapshot s))
       \<and> (p = ShortOnly \<and> Path ShortAndLong \<notin> set obs \<longrightarrow>
            \<not> fireLongDetected (metrics s') \<and> peakHzLong (metrics s') = 0)"
proof -
  have inv: "run_inv s"
    using reachable_inv[of wfft evs] assms(1) by simp
  have prev: "previous_snapshot s = metrics s"
    using inv by (rule previous_snapshot_inv)
  have inv': "run_inv s'"
    using run_inv_cycle[OF inv, of wfft rd] assms(3) by simp
  have q: "metricsQueue s' = Some (Some (metrics s'))"
    using inv cycle_publish[OF assms(2), of s _ wfft] assms(3) by (auto simp: run_inv_def)
  have f: "fireAlarmDetected (metrics s') \<longleftrightarrow>
            fireShortDetected (metrics s') \<or> fireLongDetected (metrics s')"
    using inv' by (simp add: run_inv_def)
  have f0: "fireAlarmDetected (previous_snapshot s) \<longleftrightarrow>
            fireShortDetected (previous_snapshot s) \<or> fireLongDetected (previous_snapshot s)"
    using inv prev by (simp add: run_inv_def)
  have i: "long_idx s \<in> {0, 1024, 2048, 3072}"
    using inv by (simp add: run_inv_def)
  have path: "p = ShortOnly \<longleftrightarrow> long_idx s \<noteq> 3072"
    using cycle_idx(1)[OF assms(2) i, of wfft] assms(3) by simp
  have carry: "fireLongDetected (metrics s') = fireLongDetected (metrics s) \<and>
               peakHzLong (metrics s') = peakHzLong (metrics s)" if "p = ShortOnly"
    using cycle_ok(6)[OF assms(2), of wfft s] assms(3) that by simp
  have zero: "\<not> fireLongDetected (metrics s) \<and> peakHzLong (metrics s) = 0"
    if "Path ShortAndLong \<notin> set obs"
    using run_carry[of wfft evs initial_state] assms(1) that by (simp add: initial_state_def)
  show ?thesis
    using q f f0 path carry zero prev by auto
qed

text \<open>The first iteration after the start.\<close>

theorem fusion_and_carry_forward_witness:
  "fst (loop2_cycle id good_read initial_state) = ShortOnly
   \<and> metricsQueue (snd (loop2_cycle id good_read initial_state)) =
       Some (Some (metrics (snd (loop2_cycle id good_read initial_state))))
   \<and> \<not> fireLongDetected (metrics (snd (loop2_cycle id good_read initial_state)))
   \<and> peakHzLong (metrics (snd (loop2_cycle id good_read initial_state))) = 0"
proof -
  have r: "system_run id [] initial_state = ([], initial_state)"
    by simp
  have g: "read_ok good_read"
    by (simp add: read_ok_def good_read_def ESP_OK_def)
  have c: "loop2_cycle id good_read initial_state =
      (fst (loop2_cycle id good_read initial_state), snd (loop2_cycle id good_read initial_state))"
    by simp
  have i: "long_idx initial_state \<noteq> 3072"
    by (simp add: initial_state_def)
  show ?thesis
    using fusion_and_carry_forward[OF r g c] i by auto
qed


subsection \<open>Claim C7: the metrics channel\<close>

lemma request_after:
  "last (fst (system_run wfft (evs @ [MetricsRequest]) s)) =
     Reply (fst (handleMetrics (snd (system_run wfft evs s))))"
  by (simp add: system_run_append case_prod_beta)

text \<open>
  Claim C7. An iteration with a successful read leaves exactly its own snapshot in the
  queue, whatever the slot held. The handler replies with the snapshot in the queue, or
  with status 204 and an empty document when the queue is empty, and leaves the state as
  it was. Events that publish nothing (requests and failed reads) leave the state as it
  was, so that after a publication every request is answered with that snapshot until the
  next publication, and every request before the first publication is answered with 204.
  Both queue calls are total functions of the state here; that they return without
  waiting is a property of FreeRTOS and not of this model.
\<close>

theorem metrics_channel:
  "(read_ok rd \<and> metricsQueue s = Some slot \<longrightarrow>
      metricsQueue (snd (loop2_cycle wfft rd s)) =
        Some (Some (metrics (snd (loop2_cycle wfft rd s)))))
   \<and> handleMetrics s =
       ((case metricsQueue s of Some (Some m) \<Rightarrow> snapshot_reply m | _ \<Rightarrow> no_data_reply), s)
   \<and> (list_all quiet evs \<longrightarrow> system_run wfft evs s = (map (quiet_observation s) evs, s))
   \<and> (read_ok rd \<and> metricsQueue s = Some slot \<and> list_all quiet evs \<longrightarrow>
        last (fst (system_run wfft (AudioCycle rd # evs @ [MetricsRequest]) s)) =
          Reply (snapshot_reply (metrics (snd (loop2_cycle wfft rd s)))))
   \<and> (list_all quiet evs \<longrightarrow>
        last (fst (system_run wfft (evs @ [MetricsRequest]) initial_state)) =
          Reply no_data_reply)"
proof -
  have a: "metricsQueue (snd (loop2_cycle wfft rd s)) =
        Some (Some (metrics (snd (loop2_cycle wfft rd s))))"
    if "read_ok rd \<and> metricsQueue s = Some slot"
    using that cycle_publish[of rd s slot wfft] by simp
  have c: "system_run wfft evs t = (map (quiet_observation t) evs, t)"
    if "list_all quiet evs" for t
    using that by (rule quiet_run)
  have d: "last (fst (system_run wfft (AudioCycle rd # evs @ [MetricsRequest]) s)) =
          Reply (snapshot_reply (metrics (snd (loop2_cycle wfft rd s))))"
    if h: "read_ok rd \<and> metricsQueue s = Some slot \<and> list_all quiet evs"
  proof -
    let ?s1 = "snd (loop2_cycle wfft rd s)"
    have "snd (system_run wfft (AudioCycle rd # evs) s) = snd (system_run wfft evs ?s1)"
      by (simp add: case_prod_beta)
    also have "\<dots> = ?s1"
      using c[of ?s1] h by simp
    finally have "last (fst (system_run wfft ((AudioCycle rd # evs) @ [MetricsRequest]) s)) =
        Reply (fst (handleMetrics ?s1))"
      by (simp only: request_after)
    then show ?thesis
      using a h by (simp add: handleMetrics_eq)
  qed
  have e: "last (fst (system_run wfft (evs @ [MetricsRequest]) initial_state)) =
          Reply no_data_reply"
    if "list_all quiet evs"
    using c[OF that, of initial_state]
    by (simp add: request_after handleMetrics_eq initial_state_def)
  show ?thesis
    using a c d e handleMetrics_eq[of s] by blast
qed

text \<open>Requests before and after the first publication.\<close>

theorem metrics_channel_witness:
  "metricsQueue (snd (loop2_cycle id good_read initial_state)) =
     Some (Some (metrics (snd (loop2_cycle id good_read initial_state))))
   \<and> handleMetrics initial_state = (no_data_reply, initial_state)
   \<and> last (fst (system_run id
        (AudioCycle good_read # [MetricsRequest, AudioCycle bad_read, MetricsRequest]
           @ [MetricsRequest]) initial_state)) =
       Reply (snapshot_reply (metrics (snd (loop2_cycle id good_read initial_state))))
   \<and> last (fst (system_run id
        ([MetricsRequest, AudioCycle bad_read, MetricsRequest] @ [MetricsRequest])
        initial_state)) = Reply no_data_reply"
proof -
  let ?evs = "[MetricsRequest, AudioCycle bad_read, MetricsRequest]"
  have g: "read_ok good_read"
    by (simp add: read_ok_def good_read_def ESP_OK_def)
  have q: "metricsQueue initial_state = Some None"
    by (simp add: initial_state_def)
  have l: "list_all quiet ?evs"
    by (simp add: quiet_def read_ok_def bad_read_def)
  have n: "(case metricsQueue initial_state of Some (Some m) \<Rightarrow> snapshot_reply m
            | _ \<Rightarrow> no_data_reply) = no_data_reply"
    by (simp add: q)
  from metrics_channel[where rd = good_read and s = initial_state and slot = None
      and wfft = id and evs = ?evs] g q l
  show ?thesis
    unfolding n by blast
qed

subsection \<open>Claim C10: no sample is dropped\<close>

text \<open>
  Claim C10. In every state the tasks reach from the initial state the index of the long
  buffer is 0, 1024, 2048 or 3072, so below 4096. In such a state the test
  \<^verbatim>\<open>long_idx < LONG_SAMPLES\<close> holds before each of the 1024 iterations of the append loop: the
  index advances by 1024 and every sample of the block is in the buffer afterwards.
\<close>

theorem long_buffer_never_overflows:
  assumes "system_run wfft evs initial_state = (obs, s)"
  shows "long_idx s \<in> {0, 1024, 2048, 3072}
       \<and> long_idx s < 4096
       \<and> (\<forall>i. i < BLOCK_SIZE \<longrightarrow>
            long_idx (fold (accumulate_step block) [0..<i] s) < word_of_nat LONG_SAMPLES)
       \<and> long_idx (accumulate_long block s) = long_idx s + 1024
       \<and> (\<forall>i. i < BLOCK_SIZE \<longrightarrow>
            long_buffer (accumulate_long block s) ! (unat (long_idx s) + i) = block ! i)"
proof -
  have inv: "run_inv s"
    using reachable_inv[of wfft evs] assms by simp
  have i: "long_idx s \<in> {0, 1024, 2048, 3072}" and len: "length (long_buffer s) = 4096"
    using inv by (simp_all add: run_inv_def LONG_SAMPLES_def)
  have room: "unat (long_idx s) + 1024 \<le> 4096"
    using i by (rule idx_room)
  have lt: "long_idx s < 4096"
    using i by auto
  have guard: "long_idx (fold (accumulate_step block) [0..<j] s) < word_of_nat LONG_SAMPLES"
    if "j < BLOCK_SIZE" for j
  proof -
    have j: "unat (long_idx s) + j \<le> 4096" "unat (long_idx s) + j < 4096"
      using room that by (simp_all add: BLOCK_SIZE_def SAMPLES_def)
    have "unat (long_idx s + word_of_nat j) = unat (long_idx s) + j"
      using j(1) by (rule idx_unat_add)
    then have "long_idx s + word_of_nat j < 4096"
      using j(2) by (simp add: word_less_nat_alt)
    then show ?thesis
      by (simp add: accumulate_prefix[OF j(1)] LONG_SAMPLES_def)
  qed
  have acc: "accumulate_long block s =
     s\<lparr>long_buffer := store_block block (unat (long_idx s)) 1024 (long_buffer s),
       long_idx := long_idx s + 1024\<rparr>"
    using room by (rule accumulate_long_room)
  have stored: "long_buffer (accumulate_long block s) ! (unat (long_idx s) + j) = block ! j"
    if "j < BLOCK_SIZE" for j
  proof -
    have "unat (long_idx s) + j < length (long_buffer s)"
      using room that len by (simp add: BLOCK_SIZE_def SAMPLES_def)
    then show ?thesis
      using that by (simp add: acc store_block_nth BLOCK_SIZE_def SAMPLES_def)
  qed
  show ?thesis
    using i lt guard acc stored by simp
qed

text \<open>The state after one block, a request and a failed read.\<close>

theorem long_buffer_never_overflows_witness:
  "long_idx (snd (system_run id [AudioCycle good_read, MetricsRequest, AudioCycle bad_read]
      initial_state)) \<in> {0, 1024, 2048, 3072}
   \<and> long_idx (snd (system_run id [AudioCycle good_read, MetricsRequest, AudioCycle bad_read]
      initial_state)) < 4096
   \<and> long_idx (accumulate_long (samples good_read)
        (snd (system_run id [AudioCycle good_read, MetricsRequest, AudioCycle bad_read]
           initial_state))) =
      long_idx (snd (system_run id [AudioCycle good_read, MetricsRequest, AudioCycle bad_read]
        initial_state)) + 1024"
proof -
  let ?evs = "[AudioCycle good_read, MetricsRequest, AudioCycle bad_read]"
  have r: "system_run id ?evs initial_state =
      (fst (system_run id ?evs initial_state), snd (system_run id ?evs initial_state))"
    by (rule prod.collapse[symmetric])
  show ?thesis
    using long_buffer_never_overflows[OF r, of "samples good_read"] by blast
qed

end
